theory Spec2Isabelle
  imports Main "HOL-Library.Word" "HOL-Library.Monad_Syntax"
begin

unbundle bit_operations_syntax

chapter \<open>A storage-engine core: lock manager, replacer, log, recovery and B+Tree index\<close>

section \<open>Lock manager (lock\_manager.h, lock\_manager.cpp)\<close>

text \<open>
  Transactions carry an id, a two-phase-locking state, the two sets of row ids they
  hold locks on, the sequence number of their last log record and their write set.
  A row id is a pair of page id and slot number.
\<close>

type_synonym txn_id_t = int
type_synonym page_id_t = "32 word"
type_synonym lsn_t = "32 word"
type_synonym byte = "8 word"
type_synonym Tuple = "byte list"
type_synonym RID = "page_id_t \<times> 32 word"

datatype TransactionState = GROWING | SHRINKING | COMMITTED | ABORTED

datatype LockType = SHARED | EXCLUSIVE

text \<open>
  An item of the write set: the row, the kind of write and the old tuple (the pointer
  to the table is left out).
\<close>

datatype WType = W_INSERT | W_DELETE | W_UPDATE

record WriteRecord =
  w_rid :: RID
  wtype :: WType
  w_tuple :: Tuple

record Transaction =
  txn_id :: txn_id_t
  state :: TransactionState
  shared_lock_set :: "RID set"
  exclusive_lock_set :: "RID set"
  prev_lsn :: lsn_t
  write_set :: "WriteRecord list"

text \<open>
  \<^verbatim>\<open>GrantedTxns\<close>: the lock type and the ordered set of transaction ids
  that were granted the lock.  The C++ \<^verbatim>\<open>std::set\<close> iterates in increasing
  order, so \<^verbatim>\<open>*granted_set.begin()\<close> is the minimum of the set.
\<close>

record GrantedTxns =
  lockType :: LockType
  granted_set :: "txn_id_t set"

text \<open>
  The condition-variable table maps a row id to a shared pointer; the model keeps,
  for every entry, the number of references held outside the table (one per thread
  that is inside a wait on it), which is what \<^verbatim>\<open>unique()\<close> inspects.
\<close>

record LockManager =
  strict_2PL :: bool
  lock_table :: "RID \<rightharpoonup> GrantedTxns"
  cv_table :: "RID \<rightharpoonup> nat"

text \<open>
  A lock call either returns a boolean, or blocks in \<^verbatim>\<open>cv->wait\<close>, or trips an
  \<^verbatim>\<open>assert\<close>.
\<close>

datatype outcome = Returned bool | Blocked | AssertionFailed

definition GrantedTxns_new :: "LockType \<Rightarrow> txn_id_t \<Rightarrow> GrantedTxns" where
  "GrantedTxns_new lt tid = \<lparr>lockType = lt, granted_set = {tid}\<rparr>"

definition LockManager_new :: "bool \<Rightarrow> LockManager" where
  "LockManager_new strict =
     \<lparr>strict_2PL = strict, lock_table = Map.empty, cv_table = Map.empty\<rparr>"

definition TxnStateValidForLock :: "Transaction \<Rightarrow> bool \<times> Transaction" where
  "TxnStateValidForLock txn =
     (if state txn \<noteq> GROWING then (False, txn\<lparr>state := ABORTED\<rparr>) else (True, txn))"

text \<open>
  Entering a wait: the condition variable for the row id is created when absent, and
  the waiting thread takes a reference to it.
\<close>

definition cv_acquire :: "RID \<Rightarrow> LockManager \<Rightarrow> LockManager" where
  "cv_acquire rid lm =
     lm\<lparr>cv_table := (cv_table lm)(rid \<mapsto>
          (case cv_table lm rid of None \<Rightarrow> 1 | Some n \<Rightarrow> Suc n))\<rparr>"

text \<open>Leaving the call after a wait: the local shared pointer is dropped.\<close>

definition cv_release :: "RID \<Rightarrow> LockManager \<Rightarrow> LockManager" where
  "cv_release rid lm =
     lm\<lparr>cv_table := (case cv_table lm rid of
          None \<Rightarrow> cv_table lm
        | Some n \<Rightarrow> (cv_table lm)(rid \<mapsto> n - 1))\<rparr>"

text \<open>
  \<^verbatim>\<open>LockShared\<close>, second half: the code after the exclusive-mode block, which is
  also where a woken waiter continues.
\<close>

definition LockShared_grant ::
  "Transaction \<Rightarrow> RID \<Rightarrow> LockManager \<Rightarrow> outcome \<times> Transaction \<times> LockManager" where
  "LockShared_grant txn rid lm =
     (case lock_table lm rid of
        None \<Rightarrow>
          (Returned True,
           txn\<lparr>shared_lock_set := insert rid (shared_lock_set txn)\<rparr>,
           lm\<lparr>lock_table := (lock_table lm)(rid \<mapsto> GrantedTxns_new SHARED (txn_id txn))\<rparr>)
      | Some grantedTxns \<Rightarrow>
          if granted_set grantedTxns = {} then (AssertionFailed, txn, lm)
          else if lockType grantedTxns = SHARED then
            (Returned True,
             txn\<lparr>shared_lock_set := insert rid (shared_lock_set txn)\<rparr>,
             lm\<lparr>lock_table := (lock_table lm)(rid \<mapsto>
                  grantedTxns\<lparr>granted_set := insert (txn_id txn) (granted_set grantedTxns)\<rparr>)\<rparr>)
          else (AssertionFailed, txn, lm))"

definition LockShared ::
  "Transaction \<Rightarrow> RID \<Rightarrow> LockManager \<Rightarrow> outcome \<times> Transaction \<times> LockManager" where
  "LockShared txn rid lm =
     (case TxnStateValidForLock txn of
        (False, txn') \<Rightarrow> (Returned False, txn', lm)
      | (True, txn') \<Rightarrow>
         (case lock_table lm rid of
            None \<Rightarrow> LockShared_grant txn' rid lm
          | Some grantedTxns \<Rightarrow>
              if granted_set grantedTxns = {} then (AssertionFailed, txn', lm)
              else if lockType grantedTxns = EXCLUSIVE then
                (if txn_id txn' \<ge> Min (granted_set grantedTxns)
                 then (Returned False, txn'\<lparr>state := ABORTED\<rparr>, lm)
                 else (Blocked, txn', cv_acquire rid lm))
              else LockShared_grant txn' rid lm))"

text \<open>The predicate a shared-lock waiter sleeps on.\<close>

definition LockShared_wakeup :: "RID \<Rightarrow> LockManager \<Rightarrow> bool" where
  "LockShared_wakeup rid lm =
     (case lock_table lm rid of None \<Rightarrow> True | Some g \<Rightarrow> lockType g = SHARED)"

definition LockShared_resume ::
  "Transaction \<Rightarrow> RID \<Rightarrow> LockManager \<Rightarrow> outcome \<times> Transaction \<times> LockManager" where
  "LockShared_resume txn rid lm =
     (case LockShared_grant txn rid lm of
        (res, txn', lm') \<Rightarrow> (res, txn', cv_release rid lm'))"

text \<open>
  \<^verbatim>\<open>LockExclusive\<close> and the continuation of its wait, whose predicate is that the
  row id has left the lock table.  \<^verbatim>\<open>emplace\<close> keeps an entry that is present.
\<close>

definition lock_absent :: "RID \<Rightarrow> LockManager \<Rightarrow> bool" where
  "lock_absent rid lm = (lock_table lm rid = None)"

definition install_exclusive ::
  "Transaction \<Rightarrow> RID \<Rightarrow> LockManager \<Rightarrow> outcome \<times> Transaction \<times> LockManager" where
  "install_exclusive txn rid lm =
     (Returned True,
      txn\<lparr>exclusive_lock_set := insert rid (exclusive_lock_set txn)\<rparr>,
      lm\<lparr>lock_table :=
          (case lock_table lm rid of
             None \<Rightarrow> (lock_table lm)(rid \<mapsto> GrantedTxns_new EXCLUSIVE (txn_id txn))
           | Some g \<Rightarrow> lock_table lm)\<rparr>)"

definition LockExclusive ::
  "Transaction \<Rightarrow> RID \<Rightarrow> LockManager \<Rightarrow> outcome \<times> Transaction \<times> LockManager" where
  "LockExclusive txn rid lm =
     (case TxnStateValidForLock txn of
        (False, txn') \<Rightarrow> (Returned False, txn', lm)
      | (True, txn') \<Rightarrow>
         (case lock_table lm rid of
            None \<Rightarrow> install_exclusive txn' rid lm
          | Some grantedTxns \<Rightarrow>
              if granted_set grantedTxns = {} then (AssertionFailed, txn', lm)
              else if txn_id txn' \<ge> Min (granted_set grantedTxns)
              then (Returned False, txn'\<lparr>state := ABORTED\<rparr>, lm)
              else (Blocked, txn', cv_acquire rid lm)))"

definition LockExclusive_resume ::
  "Transaction \<Rightarrow> RID \<Rightarrow> LockManager \<Rightarrow> outcome \<times> Transaction \<times> LockManager" where
  "LockExclusive_resume txn rid lm =
     (case install_exclusive txn rid lm of
        (res, txn', lm') \<Rightarrow> (res, txn', cv_release rid lm'))"

text \<open>
  \<^verbatim>\<open>LockUpgrade\<close>.  The granted set is reached through a shared pointer, so the
  erase of the caller's id is visible in the table.
\<close>

definition LockUpgrade ::
  "Transaction \<Rightarrow> RID \<Rightarrow> LockManager \<Rightarrow> outcome \<times> Transaction \<times> LockManager" where
  "LockUpgrade txn rid lm =
     (case TxnStateValidForLock txn of
        (False, txn') \<Rightarrow> (Returned False, txn', lm)
      | (True, txn') \<Rightarrow>
         (case lock_table lm rid of
            None \<Rightarrow> (Returned False, txn'\<lparr>state := ABORTED\<rparr>, lm)
          | Some grantedTxns \<Rightarrow>
              if lockType grantedTxns \<noteq> SHARED \<or> txn_id txn' \<notin> granted_set grantedTxns
              then (Returned False, txn'\<lparr>state := ABORTED\<rparr>, lm)
              else
                let txn1 = txn'\<lparr>shared_lock_set := shared_lock_set txn' - {rid}\<rparr>;
                    rest = granted_set grantedTxns - {txn_id txn'}
                in if rest = {} then
                     (Returned True,
                      txn1\<lparr>exclusive_lock_set := insert rid (exclusive_lock_set txn1)\<rparr>,
                      lm\<lparr>lock_table := (lock_table lm)(rid \<mapsto>
                           GrantedTxns_new EXCLUSIVE (txn_id txn'))\<rparr>)
                   else
                     let lm1 = lm\<lparr>lock_table := (lock_table lm)(rid \<mapsto>
                                   grantedTxns\<lparr>granted_set := rest\<rparr>)\<rparr>
                     in if txn_id txn' \<ge> Min rest
                        then (Returned False, txn1\<lparr>state := ABORTED\<rparr>, lm1)
                        else (Blocked, txn1, cv_acquire rid lm1)))"

definition LockUpgrade_resume ::
  "Transaction \<Rightarrow> RID \<Rightarrow> LockManager \<Rightarrow> outcome \<times> Transaction \<times> LockManager" where
  "LockUpgrade_resume txn rid lm =
     (case install_exclusive txn rid lm of
        (res, txn', lm') \<Rightarrow> (res, txn', cv_release rid lm'))"

text \<open>\<^verbatim>\<open>Unlock\<close> never blocks.\<close>

definition Unlock ::
  "Transaction \<Rightarrow> RID \<Rightarrow> LockManager \<Rightarrow> bool \<times> Transaction \<times> LockManager" where
  "Unlock txn rid lm =
     (if strict_2PL lm \<and> \<not> (state txn = COMMITTED \<or> state txn = ABORTED)
      then (False, txn\<lparr>state := ABORTED\<rparr>, lm)
      else
        case lock_table lm rid of
          None \<Rightarrow> (False, txn\<lparr>state := ABORTED\<rparr>, lm)
        | Some grantedTxns \<Rightarrow>
            if txn_id txn \<notin> granted_set grantedTxns
            then (False, txn\<lparr>state := ABORTED\<rparr>, lm)
            else
              let rest = granted_set grantedTxns - {txn_id txn};
                  txn1 = (if \<not> strict_2PL lm \<and> state txn = GROWING
                          then txn\<lparr>state := SHRINKING\<rparr> else txn);
                  txn2 = (if lockType grantedTxns = SHARED
                          then txn1\<lparr>shared_lock_set := shared_lock_set txn1 - {rid}\<rparr>
                          else txn1\<lparr>exclusive_lock_set := exclusive_lock_set txn1 - {rid}\<rparr>)
              in if rest = {} then
                   (True, txn2,
                    lm\<lparr>lock_table := (lock_table lm)(rid := None),
                       cv_table := (case cv_table lm rid of
                                       None \<Rightarrow> cv_table lm
                                     | Some n \<Rightarrow> if n = 0 then (cv_table lm)(rid := None)
                                                 else cv_table lm)\<rparr>)
                 else
                   (True, txn2,
                    lm\<lparr>lock_table := (lock_table lm)(rid \<mapsto>
                         grantedTxns\<lparr>granted_set := rest\<rparr>)\<rparr>))"

text \<open>
  The lock manager as a transition system.  Every call runs under the manager's
  mutex, so it is one atomic step up to its wait; a thread blocked in a wait takes a
  second atomic step once its predicate holds.  The system state is the manager
  together with the calls that are currently blocked.
\<close>

datatype request = ReqShared | ReqExclusive | ReqUpgrade

record lock_system =
  manager :: LockManager
  waiting :: "(request \<times> Transaction \<times> RID) list"

definition enqueue ::
  "request \<Rightarrow> RID \<Rightarrow> outcome \<times> Transaction \<times> LockManager \<Rightarrow> lock_system \<Rightarrow> lock_system" where
  "enqueue req rid res sys =
     (case res of (out, txn', lm') \<Rightarrow>
        \<lparr>manager = lm',
         waiting = (if out = Blocked then waiting sys @ [(req, txn', rid)] else waiting sys)\<rparr>)"

definition wakeup_holds :: "request \<Rightarrow> RID \<Rightarrow> LockManager \<Rightarrow> bool" where
  "wakeup_holds req rid lm =
     (case req of ReqShared \<Rightarrow> LockShared_wakeup rid lm
               | ReqExclusive \<Rightarrow> lock_absent rid lm
               | ReqUpgrade \<Rightarrow> lock_absent rid lm)"

definition resume ::
  "request \<Rightarrow> Transaction \<Rightarrow> RID \<Rightarrow> LockManager \<Rightarrow> outcome \<times> Transaction \<times> LockManager" where
  "resume req txn rid lm =
     (case req of ReqShared \<Rightarrow> LockShared_resume txn rid lm
               | ReqExclusive \<Rightarrow> LockExclusive_resume txn rid lm
               | ReqUpgrade \<Rightarrow> LockUpgrade_resume txn rid lm)"

inductive reachable :: "lock_system \<Rightarrow> bool" where
  start: "reachable \<lparr>manager = LockManager_new strict, waiting = []\<rparr>"
| call_shared:
    "reachable sys \<Longrightarrow>
     reachable (enqueue ReqShared rid (LockShared txn rid (manager sys)) sys)"
| call_exclusive:
    "reachable sys \<Longrightarrow>
     reachable (enqueue ReqExclusive rid (LockExclusive txn rid (manager sys)) sys)"
| call_upgrade:
    "reachable sys \<Longrightarrow>
     reachable (enqueue ReqUpgrade rid (LockUpgrade txn rid (manager sys)) sys)"
| call_unlock:
    "reachable sys \<Longrightarrow>
     reachable (sys\<lparr>manager := snd (snd (Unlock txn rid (manager sys)))\<rparr>)"
| wake:
    "reachable sys \<Longrightarrow> i < length (waiting sys) \<Longrightarrow>
     waiting sys ! i = (req, txn, rid) \<Longrightarrow> wakeup_holds req rid (manager sys) \<Longrightarrow>
     reachable \<lparr>manager = snd (snd (resume req txn rid (manager sys))),
                waiting = take i (waiting sys) @ drop (Suc i) (waiting sys)\<rparr>"

text \<open>The invariant of the lock table.\<close>

definition entry_ok :: "GrantedTxns \<Rightarrow> bool" where
  "entry_ok g =
     (granted_set g \<noteq> {} \<and> (lockType g = EXCLUSIVE \<longrightarrow> (\<exists>t. granted_set g = {t})))"

definition table_ok :: "LockManager \<Rightarrow> bool" where
  "table_ok lm = (\<forall>rid g. lock_table lm rid = Some g \<longrightarrow> entry_ok g)"


section \<open>Log records and the log manager (log\_manager.cpp, log\_recovery.cpp)\<close>

text \<open>
  The log buffer is an array of bytes.  The header fields of a log record are 32-bit
  integers (\<^verbatim>\<open>DeserializeLogRecord\<close> reads them at byte offsets 0, 4, 8, 12 and 16
  of a 20-byte header), stored in the byte order of the machine, least significant
  byte first.
\<close>

type_synonym int32 = "32 word"

datatype LogRecordType =
  INVALID | INSERT | MARKDELETE | APPLYDELETE | ROLLBACKDELETE | UPDATE
  | BEGIN | COMMIT | ABORT | NEWPAGE

record LogRecord =
  lr_size :: int32
  lr_lsn :: lsn_t
  lr_txn_id :: int32
  lr_prev_lsn :: lsn_t
  log_record_type :: LogRecordType
  delete_rid :: RID
  delete_tuple :: Tuple
  insert_rid :: RID
  insert_tuple :: Tuple
  update_rid :: RID
  old_tuple :: Tuple
  new_tuple :: Tuple
  prev_page_id :: page_id_t

definition HEADER_SIZE :: int where
  "HEADER_SIZE = 20"

definition rid_size :: int where
  "rid_size = 8"

text \<open>
  The numbering of the enumerators is the order of their declaration in log\_record.h
  (not among the sources; the round trip only needs the numbering to be injective).
  A stored number that names no enumerator is read as \<open>INVALID\<close>: like \<open>INVALID\<close> it
  takes the default branch of every switch on the type.
\<close>

definition type_code :: "LogRecordType \<Rightarrow> int32" where
  "type_code t =
     (case t of INVALID \<Rightarrow> 0 | INSERT \<Rightarrow> 1 | MARKDELETE \<Rightarrow> 2 | APPLYDELETE \<Rightarrow> 3
      | ROLLBACKDELETE \<Rightarrow> 4 | UPDATE \<Rightarrow> 5 | BEGIN \<Rightarrow> 6 | COMMIT \<Rightarrow> 7 | ABORT \<Rightarrow> 8
      | NEWPAGE \<Rightarrow> 9)"

definition type_of_code :: "int32 \<Rightarrow> LogRecordType" where
  "type_of_code c =
     (if c = 1 then INSERT else if c = 2 then MARKDELETE else if c = 3 then APPLYDELETE
      else if c = 4 then ROLLBACKDELETE else if c = 5 then UPDATE else if c = 6 then BEGIN
      else if c = 7 then COMMIT else if c = 8 then ABORT else if c = 9 then NEWPAGE
      else INVALID)"

text \<open>Four bytes of a 32-bit integer, and back.\<close>

definition int32_bytes :: "int32 \<Rightarrow> byte list" where
  "int32_bytes w = [ucast w, ucast (drop_bit 8 w), ucast (drop_bit 16 w), ucast (drop_bit 24 w)]"

definition int32_of_bytes :: "byte list \<Rightarrow> int32" where
  "int32_of_bytes bs =
     ucast (bs ! 0) OR push_bit 8 (ucast (bs ! 1))
       OR push_bit 16 (ucast (bs ! 2)) OR push_bit 24 (ucast (bs ! 3))"

text \<open>
  \<^verbatim>\<open>memcpy\<close> into the buffer and reads from it.  A write or read that leaves the
  buffer is undefined behaviour in the source; the model yields \<open>None\<close> there.
\<close>

definition memcpy_to :: "byte list \<Rightarrow> int \<Rightarrow> byte list \<Rightarrow> byte list option" where
  "memcpy_to buf pos src =
     (if 0 \<le> pos \<and> pos + int (length src) \<le> int (length buf)
      then Some (take (nat pos) buf @ src @ drop (nat pos + length src) buf)
      else None)"

definition read_bytes :: "byte list \<Rightarrow> int \<Rightarrow> nat \<Rightarrow> byte list option" where
  "read_bytes buf pos n =
     (if 0 \<le> pos \<and> pos + int n \<le> int (length buf)
      then Some (take n (drop (nat pos) buf))
      else None)"

definition read_int32 :: "byte list \<Rightarrow> int \<Rightarrow> int32 option" where
  "read_int32 buf pos = map_option int32_of_bytes (read_bytes buf pos 4)"

definition rid_bytes :: "RID \<Rightarrow> byte list" where
  "rid_bytes rid = int32_bytes (fst rid) @ int32_bytes (snd rid)"

definition read_rid :: "byte list \<Rightarrow> int \<Rightarrow> RID option" where
  "read_rid buf pos =
     do { p \<leftarrow> read_int32 buf pos; s \<leftarrow> read_int32 buf (pos + 4); Some (p, s) }"

text \<open>
  Modelled from the spec: the tuple codec (tuple.cpp is not among the sources) writes
  the length of the tuple as a 32-bit integer followed by the tuple's bytes, and reads
  them back the same way.
\<close>

definition GetLength :: "Tuple \<Rightarrow> int32" where
  "GetLength t = word_of_nat (length t)"

definition SerializeTo :: "Tuple \<Rightarrow> byte list" where
  "SerializeTo t = int32_bytes (GetLength t) @ t"

definition DeserializeFrom :: "byte list \<Rightarrow> int \<Rightarrow> Tuple option" where
  "DeserializeFrom buf pos =
     do { n \<leftarrow> read_int32 buf pos; read_bytes buf (pos + 4) (unat n) }"

text \<open>
  The log manager: the active buffer, the flush buffer, the append offset, the next
  sequence number and the highest sequence number known to be on disk.
\<close>

record LogManager =
  log_buffer :: "byte list"
  flush_buffer :: "byte list"
  offset :: int
  next_lsn :: lsn_t
  persistent_lsn :: lsn_t

definition header_bytes :: "LogRecord \<Rightarrow> byte list" where
  "header_bytes r =
     int32_bytes (lr_size r) @ int32_bytes (lr_lsn r) @ int32_bytes (lr_txn_id r)
       @ int32_bytes (lr_prev_lsn r) @ int32_bytes (type_code (log_record_type r))"

text \<open>
  \<^verbatim>\<open>AppendLogRecord\<close>.  When the record does not fit into the rest of the buffer
  the caller signals the flush thread and sleeps until the flush is done; the model
  reports this as \<open>MustWaitForFlush\<close>, and the call is retried after a buffer swap.
  \<open>LOG_BUFFER_SIZE\<close> is a configuration constant and a parameter of the model.
\<close>

datatype append_result =
  MustWaitForFlush | BufferOverrun | Appended lsn_t LogRecord LogManager

definition serialize_payload :: "LogRecord \<Rightarrow> byte list \<Rightarrow> int \<Rightarrow> byte list option" where
  "serialize_payload log_record buf pos =
     (case log_record_type log_record of
        INSERT \<Rightarrow>
          do { buf1 \<leftarrow> memcpy_to buf pos (rid_bytes (insert_rid log_record));
               memcpy_to buf1 (pos + rid_size) (SerializeTo (insert_tuple log_record)) }
      | UPDATE \<Rightarrow>
          do { buf1 \<leftarrow> memcpy_to buf pos (rid_bytes (update_rid log_record));
               buf2 \<leftarrow> memcpy_to buf1 (pos + rid_size) (SerializeTo (old_tuple log_record));
               memcpy_to buf2 (pos + rid_size + 4 + sint (GetLength (old_tuple log_record)))
                 (SerializeTo (new_tuple log_record)) }
      | NEWPAGE \<Rightarrow> memcpy_to buf pos (int32_bytes (prev_page_id log_record))
      | APPLYDELETE \<Rightarrow>
          do { buf1 \<leftarrow> memcpy_to buf pos (rid_bytes (delete_rid log_record));
               memcpy_to buf1 (pos + rid_size) (SerializeTo (delete_tuple log_record)) }
      | MARKDELETE \<Rightarrow>
          do { buf1 \<leftarrow> memcpy_to buf pos (rid_bytes (delete_rid log_record));
               memcpy_to buf1 (pos + rid_size) (SerializeTo (delete_tuple log_record)) }
      | ROLLBACKDELETE \<Rightarrow>
          do { buf1 \<leftarrow> memcpy_to buf pos (rid_bytes (delete_rid log_record));
               memcpy_to buf1 (pos + rid_size) (SerializeTo (delete_tuple log_record)) }
      | _ \<Rightarrow> Some buf)"

definition AppendLogRecord :: "int \<Rightarrow> LogRecord \<Rightarrow> LogManager \<Rightarrow> append_result" where
  "AppendLogRecord LOG_BUFFER_SIZE log_record lm =
     (if offset lm + sint (lr_size log_record) > LOG_BUFFER_SIZE then MustWaitForFlush
      else
        let stamped = log_record\<lparr>lr_lsn := next_lsn lm\<rparr>;
            written =
              do { buf \<leftarrow> memcpy_to (log_buffer lm) (offset lm) (header_bytes stamped);
                   serialize_payload stamped buf (offset lm + HEADER_SIZE) }
        in case written of
             None \<Rightarrow> BufferOverrun
           | Some buf \<Rightarrow>
               Appended (lr_lsn stamped) stamped
                 (lm\<lparr>log_buffer := buf,
                     offset := offset lm + sint (lr_size stamped),
                     next_lsn := next_lsn lm + 1\<rparr>))"

text \<open>
  \<^verbatim>\<open>DeserializeLogRecord\<close>.  \<open>data\<close> is the position in the buffer the pointer
  refers to, \<open>offset\<close> is the recovery object's own offset field.  The fields of
  \<open>log_record\<close> that the record type does not cover keep their former values.
\<close>

datatype deserialize_result = Failed | ReadOverrun | Parsed LogRecord

definition deserialize_payload :: "byte list \<Rightarrow> int \<Rightarrow> LogRecord \<Rightarrow> LogRecord option" where
  "deserialize_payload buf data log_record =
     (case log_record_type log_record of
        INSERT \<Rightarrow>
          do { rid \<leftarrow> read_rid buf data;
               t \<leftarrow> DeserializeFrom buf (data + rid_size);
               Some (log_record\<lparr>insert_rid := rid, insert_tuple := t\<rparr>) }
      | UPDATE \<Rightarrow>
          do { rid \<leftarrow> read_rid buf data;
               old \<leftarrow> DeserializeFrom buf (data + rid_size);
               new \<leftarrow> DeserializeFrom buf (data + rid_size + 4 + sint (GetLength old));
               Some (log_record\<lparr>update_rid := rid, old_tuple := old, new_tuple := new\<rparr>) }
      | NEWPAGE \<Rightarrow>
          do { p \<leftarrow> read_int32 buf data; Some (log_record\<lparr>prev_page_id := p\<rparr>) }
      | APPLYDELETE \<Rightarrow>
          do { rid \<leftarrow> read_rid buf data;
               t \<leftarrow> DeserializeFrom buf (data + rid_size);
               Some (log_record\<lparr>delete_rid := rid, delete_tuple := t\<rparr>) }
      | MARKDELETE \<Rightarrow>
          do { rid \<leftarrow> read_rid buf data;
               t \<leftarrow> DeserializeFrom buf (data + rid_size);
               Some (log_record\<lparr>delete_rid := rid, delete_tuple := t\<rparr>) }
      | ROLLBACKDELETE \<Rightarrow>
          do { rid \<leftarrow> read_rid buf data;
               t \<leftarrow> DeserializeFrom buf (data + rid_size);
               Some (log_record\<lparr>delete_rid := rid, delete_tuple := t\<rparr>) }
      | _ \<Rightarrow> Some log_record)"

definition DeserializeLogRecord ::
  "int \<Rightarrow> int \<Rightarrow> byte list \<Rightarrow> int \<Rightarrow> LogRecord \<Rightarrow> deserialize_result" where
  "DeserializeLogRecord LOG_BUFFER_SIZE offs buf data log_record =
     (if offs + HEADER_SIZE > LOG_BUFFER_SIZE then Failed
      else
        case read_int32 buf data of
          None \<Rightarrow> ReadOverrun
        | Some sz \<Rightarrow>
            if sint sz \<le> 0 \<or> offs + sint sz > LOG_BUFFER_SIZE then Failed
            else
              (case
                do { lsn \<leftarrow> read_int32 buf (data + 4);
                     txn \<leftarrow> read_int32 buf (data + 8);
                     prev \<leftarrow> read_int32 buf (data + 12);
                     ty \<leftarrow> read_int32 buf (data + 16);
                     deserialize_payload buf (data + HEADER_SIZE)
                       (log_record\<lparr>lr_size := sz, lr_lsn := lsn, lr_txn_id := txn,
                          lr_prev_lsn := prev, log_record_type := type_of_code ty\<rparr>) }
              of None \<Rightarrow> ReadOverrun | Some r \<Rightarrow> Parsed r))"

text \<open>
  The number of bytes \<^verbatim>\<open>AppendLogRecord\<close> writes for a record: the header and the
  payload of its type.
\<close>

definition serialized_length :: "LogRecord \<Rightarrow> int" where
  "serialized_length r =
     (case log_record_type r of
        INSERT \<Rightarrow> HEADER_SIZE + rid_size + 4 + int (length (insert_tuple r))
      | UPDATE \<Rightarrow> HEADER_SIZE + rid_size + 4 + int (length (old_tuple r))
                   + 4 + int (length (new_tuple r))
      | NEWPAGE \<Rightarrow> HEADER_SIZE + 4
      | APPLYDELETE \<Rightarrow> HEADER_SIZE + rid_size + 4 + int (length (delete_tuple r))
      | MARKDELETE \<Rightarrow> HEADER_SIZE + rid_size + 4 + int (length (delete_tuple r))
      | ROLLBACKDELETE \<Rightarrow> HEADER_SIZE + rid_size + 4 + int (length (delete_tuple r))
      | _ \<Rightarrow> HEADER_SIZE)"

text \<open>The payload of a record, by its type: the fields the wire format carries.\<close>

definition same_payload :: "LogRecord \<Rightarrow> LogRecord \<Rightarrow> bool" where
  "same_payload r r' =
     (case log_record_type r of
        INSERT \<Rightarrow> insert_rid r' = insert_rid r \<and> insert_tuple r' = insert_tuple r
      | UPDATE \<Rightarrow> update_rid r' = update_rid r \<and> old_tuple r' = old_tuple r
                   \<and> new_tuple r' = new_tuple r
      | NEWPAGE \<Rightarrow> prev_page_id r' = prev_page_id r
      | APPLYDELETE \<Rightarrow> delete_rid r' = delete_rid r \<and> delete_tuple r' = delete_tuple r
      | MARKDELETE \<Rightarrow> delete_rid r' = delete_rid r \<and> delete_tuple r' = delete_tuple r
      | ROLLBACKDELETE \<Rightarrow> delete_rid r' = delete_rid r \<and> delete_tuple r' = delete_tuple r
      | _ \<Rightarrow> True)"

definition same_header :: "LogRecord \<Rightarrow> LogRecord \<Rightarrow> bool" where
  "same_header r r' =
     (lr_size r' = lr_size r \<and> lr_lsn r' = lr_lsn r \<and> lr_txn_id r' = lr_txn_id r
      \<and> lr_prev_lsn r' = lr_prev_lsn r \<and> log_record_type r' = log_record_type r)"

text \<open>The bytes of a record's payload, in the order \<^verbatim>\<open>AppendLogRecord\<close> writes them.\<close>

definition payload_bytes :: "LogRecord \<Rightarrow> byte list" where
  "payload_bytes r =
     (case log_record_type r of
        INSERT \<Rightarrow> rid_bytes (insert_rid r) @ SerializeTo (insert_tuple r)
      | UPDATE \<Rightarrow> rid_bytes (update_rid r) @ SerializeTo (old_tuple r) @ SerializeTo (new_tuple r)
      | NEWPAGE \<Rightarrow> int32_bytes (prev_page_id r)
      | APPLYDELETE \<Rightarrow> rid_bytes (delete_rid r) @ SerializeTo (delete_tuple r)
      | MARKDELETE \<Rightarrow> rid_bytes (delete_rid r) @ SerializeTo (delete_tuple r)
      | ROLLBACKDELETE \<Rightarrow> rid_bytes (delete_rid r) @ SerializeTo (delete_tuple r)
      | _ \<Rightarrow> [])"

text \<open>Tuple lengths are 32-bit signed integers.\<close>

definition tuples_fit :: "LogRecord \<Rightarrow> bool" where
  "tuples_fit r =
     (length (insert_tuple r) < 2 ^ 31 \<and> length (old_tuple r) < 2 ^ 31
      \<and> length (new_tuple r) < 2 ^ 31 \<and> length (delete_tuple r) < 2 ^ 31)"

text \<open>A sample log manager and a sample UPDATE record, used to exercise the theorems.\<close>

definition sample_log_manager :: LogManager where
  "sample_log_manager =
     \<lparr>log_buffer = replicate 64 0, flush_buffer = replicate 64 0, offset = 0,
      next_lsn = 5, persistent_lsn = 4\<rparr>"

definition blank_record :: LogRecord where
  "blank_record =
     \<lparr>lr_size = 0, lr_lsn = 0, lr_txn_id = 0, lr_prev_lsn = 0, log_record_type = INVALID,
      delete_rid = (0, 0), delete_tuple = [], insert_rid = (0, 0), insert_tuple = [],
      update_rid = (0, 0), old_tuple = [], new_tuple = [], prev_page_id = 0\<rparr>"

definition sample_update :: LogRecord where
  "sample_update =
     blank_record\<lparr>lr_size := 39, lr_txn_id := 2, lr_prev_lsn := 4, log_record_type := UPDATE,
       update_rid := (7, 4), old_tuple := [1, 2], new_tuple := [3]\<rparr>"


section \<open>Recovery: the undo pass (log\_recovery.cpp)\<close>

text \<open>
  The undo pass works on table pages through the buffer pool manager.  Neither is among
  the sources, so the model records what the pass asks of them: which page it
  fetches, which operation it calls on the fetched page with which arguments, and how
  it unpins the page.
\<close>

datatype page_call =
    ApplyDelete RID
  | UpdateTuple Tuple Tuple RID
  | InsertTuple Tuple RID
  | RollbackDelete RID
  | MarkDelete RID

datatype bpm_event =
    FetchPage page_id_t
  | Call page_id_t page_call
  | UnpinPage page_id_t bool

datatype undo_status = Completed | UnexpectedRecordType | AssertionViolation | OutOfFuel

text \<open>
  Modelled from the spec: \<^verbatim>\<open>read_log(buf, max, offset)\<close> of the disk manager fills up
  to \<open>max\<close> bytes starting at the file offset and returns false at the end of the
  file; the rest of the buffer is zeroed.
\<close>

definition ReadLog :: "byte list \<Rightarrow> int \<Rightarrow> int \<Rightarrow> byte list option" where
  "ReadLog file sz offs =
     (if offs < 0 \<or> offs \<ge> int (length file) then None
      else Some (take (nat sz) (drop (nat offs) file)
                 @ replicate (nat sz - length (drop (nat offs) file)) 0))"

text \<open>
  \<^verbatim>\<open>lsn_mapping_[lsn]\<close> on a \<^verbatim>\<open>std::unordered_map\<close>: an absent key reads as 0.
\<close>

definition lsn_offset :: "(lsn_t \<rightharpoonup> int) \<Rightarrow> lsn_t \<Rightarrow> int" where
  "lsn_offset lsn_mapping lsn = (case lsn_mapping lsn of None \<Rightarrow> 0 | Some off \<Rightarrow> off)"

text \<open>
  The body of the loop for one record that is not a BEGIN record: the page is fetched
  under the page id of \<^verbatim>\<open>record.insert_rid_\<close>, whatever the type of the record, and
  the inverse operation is called on that page.  \<open>Inl\<close> carries the events up to a
  thrown exception.
\<close>

definition undo_record :: "LogRecord \<Rightarrow> bpm_event list + bpm_event list" where
  "undo_record record =
     (let page_id = fst (insert_rid record) in
      case log_record_type record of
        INSERT \<Rightarrow>
          Inr [FetchPage page_id, Call page_id (ApplyDelete (insert_rid record)),
               UnpinPage page_id True]
      | UPDATE \<Rightarrow>
          Inr [FetchPage page_id,
               Call page_id (UpdateTuple (old_tuple record) (new_tuple record) (update_rid record)),
               UnpinPage page_id True]
      | APPLYDELETE \<Rightarrow>
          Inr [FetchPage page_id,
               Call page_id (InsertTuple (delete_tuple record) (delete_rid record)),
               UnpinPage page_id True]
      | MARKDELETE \<Rightarrow>
          Inr [FetchPage page_id, Call page_id (RollbackDelete (delete_rid record)),
               UnpinPage page_id True]
      | ROLLBACKDELETE \<Rightarrow>
          Inr [FetchPage page_id, Call page_id (MarkDelete (delete_rid record)),
               UnpinPage page_id True]
      | _ \<Rightarrow> Inl [FetchPage page_id])"

text \<open>
  The inner loop for one loser transaction.  Each round declares a new
  \<^verbatim>\<open>LogRecord record\<close>; \<open>fresh\<close> is the value of such a default-constructed record.
  The chain of previous sequence numbers need not end, so the loop carries fuel.
\<close>

fun undo_chain ::
  "nat \<Rightarrow> int \<Rightarrow> LogRecord \<Rightarrow> byte list \<Rightarrow> (lsn_t \<rightharpoonup> int) \<Rightarrow> int \<Rightarrow> bpm_event list
   \<Rightarrow> undo_status \<times> bpm_event list" where
  "undo_chain 0 LOG_BUFFER_SIZE fresh file lsn_mapping next_offset trace = (OutOfFuel, trace)"
| "undo_chain (Suc fuel) LOG_BUFFER_SIZE fresh file lsn_mapping next_offset trace =
     (case ReadLog file LOG_BUFFER_SIZE next_offset of
        None \<Rightarrow> (Completed, trace)
      | Some buf \<Rightarrow>
          (case DeserializeLogRecord LOG_BUFFER_SIZE 0 buf 0 fresh of
             Parsed record \<Rightarrow>
               if log_record_type record = BEGIN then (Completed, trace)
               else
                 (case undo_record record of
                    Inl events \<Rightarrow> (UnexpectedRecordType, trace @ events)
                  | Inr events \<Rightarrow>
                      undo_chain fuel LOG_BUFFER_SIZE fresh file lsn_mapping
                        (lsn_offset lsn_mapping (lr_prev_lsn record)) (trace @ events))
           | _ \<Rightarrow> (AssertionViolation, trace)))"

text \<open>
  \<^verbatim>\<open>Undo\<close>: the outer loop over the active transactions.  The table is an unordered
  map; the list gives the order in which it is iterated.
\<close>

fun Undo_loop ::
  "nat \<Rightarrow> int \<Rightarrow> LogRecord \<Rightarrow> byte list \<Rightarrow> (lsn_t \<rightharpoonup> int) \<Rightarrow> (int32 \<times> lsn_t) list
   \<Rightarrow> bpm_event list \<Rightarrow> undo_status \<times> bpm_event list" where
  "Undo_loop fuel LOG_BUFFER_SIZE fresh file lsn_mapping [] trace = (Completed, trace)"
| "Undo_loop fuel LOG_BUFFER_SIZE fresh file lsn_mapping (entry # active_txn) trace =
     (case undo_chain fuel LOG_BUFFER_SIZE fresh file lsn_mapping
             (lsn_offset lsn_mapping (snd entry)) trace of
        (Completed, trace') \<Rightarrow>
          Undo_loop fuel LOG_BUFFER_SIZE fresh file lsn_mapping active_txn trace'
      | failed \<Rightarrow> failed)"

definition Undo ::
  "nat \<Rightarrow> int \<Rightarrow> LogRecord \<Rightarrow> byte list \<Rightarrow> (lsn_t \<rightharpoonup> int) \<Rightarrow> (int32 \<times> lsn_t) list
   \<Rightarrow> undo_status \<times> bpm_event list" where
  "Undo fuel LOG_BUFFER_SIZE fresh file lsn_mapping active_txn =
     Undo_loop fuel LOG_BUFFER_SIZE fresh file lsn_mapping active_txn []"

text \<open>
  A default-constructed record as log\_record.h declares it (the header is not among
  the sources): every row id, sequence number and page id is invalid, that is \<open>-1\<close>.
\<close>

definition default_record :: LogRecord where
  "default_record =
     \<lparr>lr_size = 0, lr_lsn = - 1, lr_txn_id = - 1, lr_prev_lsn = - 1, log_record_type = INVALID,
      delete_rid = (- 1, - 1), delete_tuple = [], insert_rid = (- 1, - 1), insert_tuple = [],
      update_rid = (- 1, - 1), old_tuple = [], new_tuple = [], prev_page_id = - 1\<rparr>"

text \<open>
  A log file of a loser transaction 2: BEGIN (sequence number 0, at offset 0) and an
  UPDATE of the row (7, 4) (sequence number 1, at offset 20).
\<close>

definition loser_begin :: LogRecord where
  "loser_begin =
     default_record\<lparr>lr_size := 20, lr_lsn := 0, lr_txn_id := 2, log_record_type := BEGIN\<rparr>"

definition loser_update :: LogRecord where
  "loser_update =
     default_record\<lparr>lr_size := 39, lr_lsn := 1, lr_txn_id := 2, lr_prev_lsn := 0,
       log_record_type := UPDATE, update_rid := (7, 4), old_tuple := [1, 2], new_tuple := [3]\<rparr>"

definition loser_log :: "byte list" where
  "loser_log =
     header_bytes loser_begin @ payload_bytes loser_begin
     @ header_bytes loser_update @ payload_bytes loser_update"


section \<open>Commit and the flush thread (transaction\_manager.cpp, log\_manager.cpp)\<close>

text \<open>
  \<^verbatim>\<open>SwapBuffer\<close> exchanges the two buffers and resets the append offset.
\<close>

definition SwapBuffer :: "LogManager \<Rightarrow> int \<times> LogManager" where
  "SwapBuffer lm =
     (offset lm,
      lm\<lparr>log_buffer := flush_buffer lm, flush_buffer := log_buffer lm, offset := 0\<rparr>)"

text \<open>
  The record a transaction manager appends for BEGIN, COMMIT and ABORT: the
  constructor of log\_record.h for these types (not among the sources) makes a
  header-only record of 20 bytes.
\<close>

definition LogRecord_txn :: "txn_id_t \<Rightarrow> lsn_t \<Rightarrow> LogRecordType \<Rightarrow> LogRecord" where
  "LogRecord_txn tid prev ty =
     default_record\<lparr>lr_size := 20, lr_txn_id := word_of_int tid, lr_prev_lsn := prev,
       log_record_type := ty\<rparr>"

text \<open>
  Modelled from the spec: \<^verbatim>\<open>TableHeap::ApplyDelete\<close> (table\_heap.cpp) is not among
  the sources.  The spec has the commit drain apply the deferred deletes, and the
  comment at the call in \<^verbatim>\<open>Commit\<close> says that the call also releases the lock of
  the row.  The model of the call is that release, a call of \<^verbatim>\<open>Unlock\<close> whose
  result is dropped; what the call does to the table page and to the log is left out.
\<close>

definition TableHeap_ApplyDelete :: "RID \<Rightarrow> Transaction \<Rightarrow> LockManager \<Rightarrow> Transaction \<times> LockManager" where
  "TableHeap_ApplyDelete rid txn lm = (case Unlock txn rid lm of (ok, txn', lm') \<Rightarrow> (txn', lm'))"

text \<open>
  The rows of the DELETE items of a write set, in the order in which the drain at
  commit, which works from the back, applies them.
\<close>

definition commit_deletes :: "WriteRecord list \<Rightarrow> RID list" where
  "commit_deletes ws = map w_rid (filter (\<lambda>item. wtype item = W_DELETE) (rev ws))"

text \<open>
  \<^verbatim>\<open>Commit\<close> runs concurrently with the flush thread and with other threads that
  append log records, so it is modelled as a transition system.  The program counter
  of the committing thread says where in \<^verbatim>\<open>Commit\<close> it stands:
  before the call; in the loop that drains the write set; inside
  \<^verbatim>\<open>AppendLogRecord\<close> for its COMMIT record; in the loop that waits for the flush,
  with the sequence number the record was given; in the loop that releases the locks
  that are left; and after the return.  The system also keeps the COMMIT record as it
  was appended.
\<close>

datatype commit_pc =
    NotStarted
  | Draining
  | Appending
  | AwaitFlush lsn_t
  | Releasing "lsn_t option" "RID list"
  | CommitReturned "lsn_t option"

record commit_system =
  c_txn :: Transaction
  c_log :: LogManager
  c_locks :: LockManager
  flush_last_lsn :: "lsn_t option"
  c_pc :: commit_pc
  commit_record :: "LogRecord option"

text \<open>
  The steps, each named by a label.  \<open>Drain\<close> is one round of the loop over the write
  set: the item at the back is applied to its table if it is a DELETE, and popped.
  \<open>EndDrain\<close> leaves that loop.  \<open>FlushSwap\<close> and \<open>FlushDone\<close> are the two critical
  sections of one round of \<^verbatim>\<open>FlushLog\<close>: the first computes
  \<^verbatim>\<open>last_lsn = next_lsn_ - 1\<close> and swaps the buffers, the second, after the disk
  write, stores \<^verbatim>\<open>last_lsn\<close> as the persistent sequence number.
  \<open>OtherAppend\<close> is an append by any thread.  Signed overflow of the sequence counter
  is undefined behaviour, so an append is a step only while the counter is below its
  maximum.  The row ids in \<open>EndDrain\<close> and \<open>Flushed\<close> give the order in which the
  unordered set of held locks is iterated; without logging that set is built right
  after the drain.  A label that is not enabled yields \<open>None\<close>.
\<close>

datatype commit_label =
    SetCommitted
  | Drain
  | EndDrain "RID list"
  | AppendCommit
  | WaitForLogFlush
  | Flushed "RID list"
  | Release
  | Return
  | FlushSwap
  | FlushDone
  | OtherAppend LogRecord

definition lock_set_order :: "Transaction \<Rightarrow> RID list \<Rightarrow> bool" where
  "lock_set_order t rids =
     (set rids = shared_lock_set t \<union> exclusive_lock_set t \<and> distinct rids)"

definition commit_step ::
  "int \<Rightarrow> bool \<Rightarrow> commit_label \<Rightarrow> commit_system \<Rightarrow> commit_system option" where
  "commit_step LOG_BUFFER_SIZE ENABLE_LOGGING label s =
     (case label of
        SetCommitted \<Rightarrow>
          if c_pc s = NotStarted then
            Some (s\<lparr>c_txn := (c_txn s)\<lparr>state := COMMITTED\<rparr>, c_pc := Draining\<rparr>)
          else None
      | Drain \<Rightarrow>
          if c_pc s = Draining \<and> write_set (c_txn s) \<noteq> [] then
            (let item = last (write_set (c_txn s));
                 (txn', locks') =
                   (if wtype item = W_DELETE then TableHeap_ApplyDelete (w_rid item) (c_txn s) (c_locks s)
                    else (c_txn s, c_locks s))
             in Some (s\<lparr>c_txn := txn'\<lparr>write_set := butlast (write_set txn')\<rparr>,
                        c_locks := locks'\<rparr>))
          else None
      | EndDrain rids \<Rightarrow>
          if c_pc s = Draining \<and> write_set (c_txn s) = []
             \<and> (ENABLE_LOGGING \<or> lock_set_order (c_txn s) rids) then
            Some (s\<lparr>c_pc := (if ENABLE_LOGGING then Appending else Releasing None rids)\<rparr>)
          else None
      | AppendCommit \<Rightarrow>
          if c_pc s = Appending \<and> sint (next_lsn (c_log s)) < 2 ^ 31 - 1 then
            (case AppendLogRecord LOG_BUFFER_SIZE
                    (LogRecord_txn (txn_id (c_txn s)) (prev_lsn (c_txn s)) COMMIT) (c_log s) of
               Appended lsn r lm' \<Rightarrow>
                 Some (s\<lparr>c_txn := (c_txn s)\<lparr>prev_lsn := lsn\<rparr>, c_log := lm',
                         commit_record := Some r, c_pc := AwaitFlush lsn\<rparr>)
             | _ \<Rightarrow> None)
          else None
      | WaitForLogFlush \<Rightarrow>
          (case c_pc s of
             AwaitFlush lsn \<Rightarrow>
               if sint lsn > sint (persistent_lsn (c_log s)) then Some s else None
           | _ \<Rightarrow> None)
      | Flushed rids \<Rightarrow>
          (case c_pc s of
             AwaitFlush lsn \<Rightarrow>
               if \<not> sint lsn > sint (persistent_lsn (c_log s)) \<and> lock_set_order (c_txn s) rids
               then Some (s\<lparr>c_pc := Releasing (Some lsn) rids\<rparr>) else None
           | _ \<Rightarrow> None)
      | Release \<Rightarrow>
          (case c_pc s of
             Releasing l (rid # rids) \<Rightarrow>
               (case Unlock (c_txn s) rid (c_locks s) of
                  (ok, txn', locks') \<Rightarrow>
                    Some (s\<lparr>c_txn := txn', c_locks := locks', c_pc := Releasing l rids\<rparr>))
           | _ \<Rightarrow> None)
      | Return \<Rightarrow>
          (case c_pc s of
             Releasing l [] \<Rightarrow> Some (s\<lparr>c_pc := CommitReturned l\<rparr>)
           | _ \<Rightarrow> None)
      | FlushSwap \<Rightarrow>
          (case flush_last_lsn s of
             None \<Rightarrow>
               Some (s\<lparr>flush_last_lsn := Some (next_lsn (c_log s) - 1),
                       c_log := snd (SwapBuffer (c_log s))\<rparr>)
           | Some last_lsn \<Rightarrow> None)
      | FlushDone \<Rightarrow>
          (case flush_last_lsn s of
             None \<Rightarrow> None
           | Some last_lsn \<Rightarrow>
               Some (s\<lparr>flush_last_lsn := None,
                       c_log := (c_log s)\<lparr>persistent_lsn := last_lsn\<rparr>\<rparr>))
      | OtherAppend r0 \<Rightarrow>
          if sint (next_lsn (c_log s)) < 2 ^ 31 - 1 then
            (case AppendLogRecord LOG_BUFFER_SIZE r0 (c_log s) of
               Appended lsn r lm' \<Rightarrow> Some (s\<lparr>c_log := lm'\<rparr>)
             | _ \<Rightarrow> None)
          else None)"

text \<open>
  The lock sets of a transaction agree with the lock table when the transaction has
  a row in its shared or exclusive lock set exactly when the entry of the row in the
  table is of that type and grants the lock to the transaction.
\<close>

definition locks_agree :: "Transaction \<Rightarrow> LockManager \<Rightarrow> bool" where
  "locks_agree t lm =
     (\<forall>rid.
        (rid \<in> shared_lock_set t) =
          (\<exists>g. lock_table lm rid = Some g \<and> lockType g = SHARED \<and> txn_id t \<in> granted_set g)
      \<and> (rid \<in> exclusive_lock_set t) =
          (\<exists>g. lock_table lm rid = Some g \<and> lockType g = EXCLUSIVE \<and> txn_id t \<in> granted_set g))"

text \<open>
  A fresh log manager has handed out no sequence number and has nothing on disk; a
  start state of the system is any state in which \<^verbatim>\<open>Commit\<close> has not been called,
  whose counters are as some run of the log manager from a fresh one leaves them, and
  in which the lock sets of the transaction agree with the lock table.
\<close>

definition commit_start :: "commit_system \<Rightarrow> bool" where
  "commit_start s =
     (c_pc s = NotStarted
      \<and> commit_record s = None \<and> flush_last_lsn s = None
      \<and> 0 \<le> sint (next_lsn (c_log s))
      \<and> sint (persistent_lsn (c_log s)) < sint (next_lsn (c_log s))
      \<and> locks_agree (c_txn s) (c_locks s))"

text \<open>\<open>commit_reaches \<dots> s0 s\<close>: the system gets from the start state \<open>s0\<close> to \<open>s\<close>.\<close>

inductive commit_reaches :: "int \<Rightarrow> bool \<Rightarrow> commit_system \<Rightarrow> commit_system \<Rightarrow> bool" where
  initial: "commit_start s0 \<Longrightarrow> commit_reaches LOG_BUFFER_SIZE ENABLE_LOGGING s0 s0"
| step: "commit_reaches LOG_BUFFER_SIZE ENABLE_LOGGING s0 s \<Longrightarrow>
         commit_step LOG_BUFFER_SIZE ENABLE_LOGGING label s = Some s' \<Longrightarrow>
         commit_reaches LOG_BUFFER_SIZE ENABLE_LOGGING s0 s'"

text \<open>The sequence number of the COMMIT record, once the record has been appended.\<close>

fun commit_lsn :: "commit_pc \<Rightarrow> lsn_t option" where
  "commit_lsn (AwaitFlush lsn) = Some lsn"
| "commit_lsn (Releasing l rids) = l"
| "commit_lsn (CommitReturned l) = l"
| "commit_lsn pc = None"

fun past_flush :: "commit_pc \<Rightarrow> bool" where
  "past_flush (Releasing l rids) = True"
| "past_flush (CommitReturned l) = True"
| "past_flush pc = False"

fun past_drain :: "commit_pc \<Rightarrow> bool" where
  "past_drain NotStarted = False"
| "past_drain Draining = False"
| "past_drain pc = True"

text \<open>
  The COMMIT record of the transaction is durable: it has been appended, and the
  persistent sequence number is greater than or equal to the one it was given.
\<close>

definition commit_durable :: "commit_system \<Rightarrow> bool" where
  "commit_durable s =
     (case commit_lsn (c_pc s) of
        None \<Rightarrow> False
      | Some lsn \<Rightarrow>
          (case commit_record s of
             None \<Rightarrow> False
           | Some r \<Rightarrow> lr_lsn r = lsn \<and> log_record_type r = COMMIT
                        \<and> sint lsn \<le> sint (persistent_lsn (c_log s))))"

text \<open>The transaction holds a lock on the row, by its lock sets or by the lock table.\<close>

definition holds_lock :: "commit_system \<Rightarrow> RID \<Rightarrow> bool" where
  "holds_lock s rid =
     (rid \<in> shared_lock_set (c_txn s) \<or> rid \<in> exclusive_lock_set (c_txn s)
      \<or> (case lock_table (c_locks s) rid of
            None \<Rightarrow> False
          | Some g \<Rightarrow> txn_id (c_txn s) \<in> granted_set g))"

text \<open>Running a schedule of labels.\<close>

fun commit_run ::
  "int \<Rightarrow> bool \<Rightarrow> commit_label list \<Rightarrow> commit_system \<Rightarrow> commit_system option" where
  "commit_run LOG_BUFFER_SIZE ENABLE_LOGGING [] s = Some s"
| "commit_run LOG_BUFFER_SIZE ENABLE_LOGGING (label # labels) s =
     (case commit_step LOG_BUFFER_SIZE ENABLE_LOGGING label s of
        None \<Rightarrow> None
      | Some s' \<Rightarrow> commit_run LOG_BUFFER_SIZE ENABLE_LOGGING labels s')"

text \<open>
  A sample run: under strict two-phase locking transaction 0 holds the exclusive
  locks on the rows (0, 0) and (0, 1), has deleted row (0, 0) and updated row (0, 1),
  and commits against a fresh log manager with 64-byte buffers.
\<close>

definition sample_commit_start :: commit_system where
  "sample_commit_start =
     \<lparr>c_txn = \<lparr>txn_id = 0, state = GROWING, shared_lock_set = {},
               exclusive_lock_set = {(0, 0), (0, 1)}, prev_lsn = - 1,
               write_set = [\<lparr>w_rid = (0, 0), wtype = W_DELETE, w_tuple = [1]\<rparr>,
                            \<lparr>w_rid = (0, 1), wtype = W_UPDATE, w_tuple = [2]\<rparr>]\<rparr>,
      c_log = \<lparr>log_buffer = replicate 64 0, flush_buffer = replicate 64 0, offset = 0,
               next_lsn = 0, persistent_lsn = - 1\<rparr>,
      c_locks = \<lparr>strict_2PL = True,
                 lock_table = [(0, 0) \<mapsto> \<lparr>lockType = EXCLUSIVE, granted_set = {0}\<rparr>,
                               (0, 1) \<mapsto> \<lparr>lockType = EXCLUSIVE, granted_set = {0}\<rparr>],
                 cv_table = Map.empty\<rparr>,
      flush_last_lsn = None, c_pc = NotStarted, commit_record = None\<rparr>"

definition sample_drain :: "commit_label list" where
  "sample_drain = [SetCommitted, Drain, Drain, EndDrain []]"

definition sample_schedule :: "commit_label list" where
  "sample_schedule =
     sample_drain @ [AppendCommit, WaitForLogFlush, FlushSwap, FlushDone, Flushed [(0, 1)],
                     Release, Return]"

text \<open>
  The invariant of the log: the counters are ordered, a flush in progress carries a
  sequence number between the persistent and the next one, the committing thread is
  past its wait only when the persistent sequence number has reached the one of its
  COMMIT record, and that record is the one appended.
\<close>

definition log_inv :: "commit_system \<Rightarrow> bool" where
  "log_inv s =
     (0 \<le> sint (next_lsn (c_log s))
      \<and> sint (persistent_lsn (c_log s)) < sint (next_lsn (c_log s))
      \<and> (\<forall>l. flush_last_lsn s = Some l \<longrightarrow>
             sint (persistent_lsn (c_log s)) \<le> sint l \<and> sint l < sint (next_lsn (c_log s)))
      \<and> (past_flush (c_pc s) \<longrightarrow>
             (\<exists>lsn. commit_lsn (c_pc s) = Some lsn
                 \<and> sint lsn \<le> sint (persistent_lsn (c_log s))))
      \<and> (\<forall>lsn. commit_lsn (c_pc s) = Some lsn \<longrightarrow>
             (\<exists>r. commit_record s = Some r \<and> lr_lsn r = lsn \<and> log_record_type r = COMMIT)))"

text \<open>
  The invariant of the locks, from the start state \<open>s0\<close>: the lock sets agree with
  the lock table; the write set is what the drain has left of it, and the rows of the
  DELETE items the drain has passed are in no lock set; until the thread is past its
  wait the lock table is as at the start for all other rows; in the final loop the
  locks still held are among those to be released, and none is left at the return.
\<close>

definition lock_inv :: "commit_system \<Rightarrow> commit_system \<Rightarrow> bool" where
  "lock_inv s0 s =
     (locks_agree (c_txn s) (c_locks s)
      \<and> txn_id (c_txn s) = txn_id (c_txn s0)
      \<and> (c_pc s \<noteq> NotStarted \<longrightarrow> state (c_txn s) = COMMITTED \<or> state (c_txn s) = ABORTED)
      \<and> write_set (c_txn s) = take (length (write_set (c_txn s))) (write_set (c_txn s0))
      \<and> (c_pc s = NotStarted \<longrightarrow> write_set (c_txn s) = write_set (c_txn s0))
      \<and> (past_drain (c_pc s) \<longrightarrow> write_set (c_txn s) = [])
      \<and> (\<forall>rid\<in>set (commit_deletes
                          (drop (length (write_set (c_txn s))) (write_set (c_txn s0)))).
             rid \<notin> shared_lock_set (c_txn s) \<and> rid \<notin> exclusive_lock_set (c_txn s))
      \<and> (\<not> past_flush (c_pc s) \<longrightarrow>
             (\<forall>rid. rid \<notin> set (commit_deletes (write_set (c_txn s0))) \<longrightarrow>
                lock_table (c_locks s) rid = lock_table (c_locks s0) rid))
      \<and> (\<forall>l rids. c_pc s = Releasing l rids \<longrightarrow>
             shared_lock_set (c_txn s) \<union> exclusive_lock_set (c_txn s) \<subseteq> set rids)
      \<and> (\<forall>l. c_pc s = CommitReturned l \<longrightarrow>
             shared_lock_set (c_txn s) = {} \<and> exclusive_lock_set (c_txn s) = {}))"

section \<open>LRU replacer (lru\_replacer.h, lru\_replacer.cpp)\<close>

text \<open>
  The replacer keeps a doubly linked list of values, most recently used first, and a
  hash map from a value to the list iterator of its node.  A list iterator stays valid
  until its node is erased.  The model numbers the nodes: every \<^verbatim>\<open>push_front\<close>
  makes a node with a number not used before, and an iterator is the number of its
  node.  Erasing through an iterator whose node is no longer in the list is undefined
  behaviour in C++; the model reports it as \<open>InvalidIterator\<close>.
\<close>

datatype lru_error = InvalidIterator

record 'a LRUReplacer =
  access_list :: "(nat \<times> 'a) list"
  value_map :: "'a \<rightharpoonup> nat"
  next_node :: nat

definition LRUReplacer_new :: "'a LRUReplacer" where
  "LRUReplacer_new = \<lparr>access_list = [], value_map = Map.empty, next_node = 0\<rparr>"

definition list_erase :: "nat \<Rightarrow> (nat \<times> 'a) list \<Rightarrow> lru_error + (nat \<times> 'a) list" where
  "list_erase it l =
     (if it \<in> fst ` set l then Inr (filter (\<lambda>node. fst node \<noteq> it) l) else Inl InvalidIterator)"

text \<open>
  \<^verbatim>\<open>push_front\<close> followed by \<^verbatim>\<open>value_map.emplace(value, access_list.begin())\<close>;
  \<^verbatim>\<open>emplace\<close> leaves the map as it is when the key is present.
\<close>

definition push_front_emplace :: "'a \<Rightarrow> (nat \<times> 'a) list \<Rightarrow> 'a LRUReplacer \<Rightarrow> 'a LRUReplacer" where
  "push_front_emplace v l r =
     r\<lparr>access_list := (next_node r, v) # l,
       value_map := (case value_map r v of
                       None \<Rightarrow> (value_map r)(v \<mapsto> next_node r)
                     | Some pos \<Rightarrow> value_map r),
       next_node := Suc (next_node r)\<rparr>"

definition LRU_Insert :: "'a \<Rightarrow> 'a LRUReplacer \<Rightarrow> lru_error + 'a LRUReplacer" where
  "LRU_Insert v r =
     (case value_map r v of
        Some pos \<Rightarrow>
          (case list_erase pos (access_list r) of
             Inl e \<Rightarrow> Inl e
           | Inr l \<Rightarrow> Inr (push_front_emplace v l r))
      | None \<Rightarrow> Inr (push_front_emplace v (access_list r) r))"

definition LRU_Victim :: "'a LRUReplacer \<Rightarrow> 'a option \<times> 'a LRUReplacer" where
  "LRU_Victim r =
     (if length (access_list r) = 0 then (None, r)
      else
        let v = snd (last (access_list r))
        in (Some v, r\<lparr>access_list := butlast (access_list r),
                       value_map := (value_map r)(v := None)\<rparr>))"

definition LRU_Erase :: "'a \<Rightarrow> 'a LRUReplacer \<Rightarrow> lru_error + bool \<times> 'a LRUReplacer" where
  "LRU_Erase v r =
     (case value_map r v of
        None \<Rightarrow> Inr (False, r)
      | Some pos \<Rightarrow>
          (case list_erase pos (access_list r) of
             Inl e \<Rightarrow> Inl e
           | Inr l \<Rightarrow> Inr (True, r\<lparr>access_list := l, value_map := (value_map r)(v := None)\<rparr>)))"

definition LRU_Size :: "'a LRUReplacer \<Rightarrow> nat" where
  "LRU_Size r = length (access_list r)"

text \<open>Running a list of insertions from a replacer, stopping at the first error.\<close>

fun LRU_Inserts :: "'a list \<Rightarrow> 'a LRUReplacer \<Rightarrow> lru_error + 'a LRUReplacer" where
  "LRU_Inserts [] r = Inr r"
| "LRU_Inserts (v # vs) r =
     (case LRU_Insert v r of Inl e \<Rightarrow> Inl e | Inr r' \<Rightarrow> LRU_Inserts vs r')"


section \<open>B+Tree pages (b\_plus\_tree\_page.h, b\_plus\_tree\_leaf\_page.cpp, b\_plus\_tree\_internal\_page.cpp)\<close>

text \<open>
  A tree page lives in a frame of the buffer pool and is viewed either as a leaf page
  or as an internal page.  The model keeps the header fields and, for each view, the
  used slots of the slot array as a list, so that the size of a page is the length of
  its list.  Keys are ordered by a comparator that returns a negative number, zero or a
  positive number.
\<close>

datatype IndexPageType = INVALID_INDEX_PAGE | LEAF_PAGE | INTERNAL_PAGE

record ('k, 'v) BPlusTreePage =
  page_type :: IndexPageType
  max_size :: nat
  parent_page_id :: page_id_t
  page_id :: page_id_t
  next_page_id :: page_id_t
  leaf_array :: "('k \<times> 'v) list"
  internal_array :: "('k \<times> page_id_t) list"

definition INVALID_PAGE_ID :: page_id_t where
  "INVALID_PAGE_ID = - 1"

definition comparator :: "'k::linorder \<Rightarrow> 'k \<Rightarrow> int" where
  "comparator a b = (if a < b then - 1 else if b < a then 1 else 0)"

definition IsLeafPage :: "('k, 'v) BPlusTreePage \<Rightarrow> bool" where
  "IsLeafPage p = (page_type p = LEAF_PAGE)"

text \<open>
  Modelled from the spec: b\_plus\_tree\_page.cpp is not among the sources.  A page is
  the root when it has no parent, and \<open>min_size = ceil(max_size / 2)\<close>.
\<close>

definition IsRootPage :: "('k, 'v) BPlusTreePage \<Rightarrow> bool" where
  "IsRootPage p = (parent_page_id p = INVALID_PAGE_ID)"

definition GetMinSize :: "('k, 'v) BPlusTreePage \<Rightarrow> nat" where
  "GetMinSize p = (max_size p + 1) div 2"

definition GetSize :: "('k, 'v) BPlusTreePage \<Rightarrow> nat" where
  "GetSize p = (if IsLeafPage p then length (leaf_array p) else length (internal_array p))"

subsection \<open>Leaf pages\<close>

definition Leaf_Init :: "page_id_t \<Rightarrow> page_id_t \<Rightarrow> nat \<Rightarrow> ('k, 'v) BPlusTreePage" where
  "Leaf_Init pid parent_id max_sz =
     \<lparr>page_type = LEAF_PAGE, max_size = max_sz, parent_page_id = parent_id, page_id = pid,
      next_page_id = INVALID_PAGE_ID, leaf_array = [], internal_array = []\<rparr>"

text \<open>\<^verbatim>\<open>KeyIndex\<close>: the binary search for the first index whose key is not below \<open>key\<close>.\<close>

function KeyIndex_loop :: "'k::linorder \<Rightarrow> ('k \<times> 'v) list \<Rightarrow> nat \<Rightarrow> nat \<Rightarrow> nat" where
  "KeyIndex_loop key array start end' =
     (if start < end' then
        let mid = start + (end' - start) div 2
        in if comparator key (fst (array ! mid)) > 0
           then KeyIndex_loop key array (mid + 1) end'
           else KeyIndex_loop key array start mid
      else start)"
  by pat_completeness auto
termination
  by (relation "measure (\<lambda>(key, array, start, end'). end' - start)") auto

definition KeyIndex :: "'k::linorder \<Rightarrow> ('k, 'v) BPlusTreePage \<Rightarrow> nat" where
  "KeyIndex key p = KeyIndex_loop key (leaf_array p) 0 (length (leaf_array p))"

text \<open>
  \<^verbatim>\<open>Insert\<close> on a leaf page returns the size after the insertion; the shifting loop
  and the two stores are one list insertion.  A failed \<^verbatim>\<open>assert\<close> is \<open>None\<close>.
\<close>

definition Leaf_Insert ::
  "'k::linorder \<Rightarrow> 'v \<Rightarrow> ('k, 'v) BPlusTreePage \<Rightarrow> (nat \<times> ('k, 'v) BPlusTreePage) option" where
  "Leaf_Insert key val p =
     (if \<not> length (leaf_array p) \<le> max_size p then None
      else
        let index = KeyIndex key p
        in if index < length (leaf_array p)
              \<and> comparator key (fst (leaf_array p ! index)) = 0
           then Some (length (leaf_array p), p)
           else
             let p' = p\<lparr>leaf_array := take index (leaf_array p) @ [(key, val)]
                                          @ drop index (leaf_array p)\<rparr>
             in Some (length (leaf_array p'), p'))"

text \<open>
  \<^verbatim>\<open>MoveHalfTo\<close> with \<^verbatim>\<open>CopyHalfFrom\<close> on leaf pages: the result is the pair of
  this page and the recipient.
\<close>

definition Leaf_MoveHalfTo ::
  "('k, 'v) BPlusTreePage \<Rightarrow> ('k, 'v) BPlusTreePage
   \<Rightarrow> (('k, 'v) BPlusTreePage \<times> ('k, 'v) BPlusTreePage) option" where
  "Leaf_MoveHalfTo this recipient =
     (if length (leaf_array this) \<noteq> max_size this + 1 \<or> length (leaf_array recipient) \<noteq> 0
      then None
      else
        let sz = length (leaf_array this); half = GetMinSize this;
            recipient1 = recipient\<lparr>leaf_array := take half (drop (sz - half) (leaf_array this))\<rparr>;
            this1 = this\<lparr>leaf_array := take (sz - half) (leaf_array this)\<rparr>;
            recipient2 = recipient1\<lparr>next_page_id := next_page_id this1\<rparr>;
            this2 = this1\<lparr>next_page_id := page_id recipient2\<rparr>
        in Some (this2, recipient2))"

definition Leaf_Lookup :: "'k::linorder \<Rightarrow> ('k, 'v) BPlusTreePage \<Rightarrow> 'v option" where
  "Leaf_Lookup key p =
     (let index = KeyIndex key p
      in if index < length (leaf_array p) \<and> comparator key (fst (leaf_array p ! index)) = 0
         then Some (snd (leaf_array p ! index))
         else None)"

subsection \<open>Internal pages\<close>

definition Internal_Init :: "page_id_t \<Rightarrow> page_id_t \<Rightarrow> nat \<Rightarrow> ('k, 'v) BPlusTreePage" where
  "Internal_Init pid parent_id max_sz =
     \<lparr>page_type = INTERNAL_PAGE, max_size = max_sz, parent_page_id = parent_id, page_id = pid,
      next_page_id = INVALID_PAGE_ID, leaf_array = [], internal_array = []\<rparr>"

text \<open>
  \<^verbatim>\<open>ValueIndex\<close> returns \<open>-1\<close> when no slot holds the value.
\<close>

fun ValueIndex_loop :: "page_id_t \<Rightarrow> ('k \<times> page_id_t) list \<Rightarrow> int \<Rightarrow> int" where
  "ValueIndex_loop v [] i = - 1"
| "ValueIndex_loop v (slot # array) i =
     (if snd slot = v then i else ValueIndex_loop v array (i + 1))"

definition ValueIndex :: "page_id_t \<Rightarrow> ('k, 'v) BPlusTreePage \<Rightarrow> int" where
  "ValueIndex v p = ValueIndex_loop v (internal_array p) 0"

text \<open>
  \<^verbatim>\<open>Lookup\<close> on an internal page: the binary search over the slots from 1 on for the
  first key above \<open>key\<close>; the child before it is the answer.
\<close>

function Lookup_loop :: "'k::linorder \<Rightarrow> ('k \<times> page_id_t) list \<Rightarrow> nat \<Rightarrow> nat \<Rightarrow> nat" where
  "Lookup_loop key array start end' =
     (if start < end' then
        let mid = start + (end' - start) div 2
        in if comparator key (fst (array ! mid)) < 0
           then Lookup_loop key array start mid
           else Lookup_loop key array (mid + 1) end'
      else start)"
  by pat_completeness auto
termination
  by (relation "measure (\<lambda>(key, array, start, end'). end' - start)") auto

definition Internal_Lookup :: "'k::linorder \<Rightarrow> ('k, 'v) BPlusTreePage \<Rightarrow> page_id_t option" where
  "Internal_Lookup key p =
     (if \<not> length (internal_array p) > 1 then None
      else Some (snd (internal_array p !
                  (Lookup_loop key (internal_array p) 1 (length (internal_array p)) - 1))))"

text \<open>
  \<^verbatim>\<open>PopulateNewRoot\<close> writes the value of slot 0 and both fields of slot 1.  The key of
  slot 0 is not written; \<open>blank\<close> is the key the slot of the new frame holds.
\<close>

definition PopulateNewRoot ::
  "'k \<Rightarrow> page_id_t \<Rightarrow> 'k \<Rightarrow> page_id_t \<Rightarrow> ('k, 'v) BPlusTreePage \<Rightarrow> ('k, 'v) BPlusTreePage option" where
  "PopulateNewRoot blank old_value new_key new_value p =
     (if \<not> IsRootPage p \<or> length (internal_array p) \<noteq> 0 then None
      else Some (p\<lparr>internal_array := [(blank, old_value), (new_key, new_value)]\<rparr>))"

definition InsertNodeAfter ::
  "page_id_t \<Rightarrow> 'k \<Rightarrow> page_id_t \<Rightarrow> ('k, 'v) BPlusTreePage
   \<Rightarrow> (nat \<times> ('k, 'v) BPlusTreePage) option" where
  "InsertNodeAfter old_value new_key new_value p =
     (let index = ValueIndex old_value p
      in if \<not> index \<ge> 0 then None
         else
           let p' = p\<lparr>internal_array :=
                        take (nat index + 1) (internal_array p) @ [(new_key, new_value)]
                        @ drop (nat index + 1) (internal_array p)\<rparr>
           in Some (length (internal_array p'), p'))"

text \<open>
  \<^verbatim>\<open>KeyAt\<close>.  On a leaf page the index is asserted to be in range.  On an internal
  page the assertion is \<^verbatim>\<open>0 < index < GetSize()\<close>, which C++ reads as
  \<^verbatim>\<open>(0 < index) < GetSize()\<close>; a read past the used slots is undefined and is
  \<open>None\<close> in the model.
\<close>

definition Leaf_KeyAt :: "nat \<Rightarrow> ('k, 'v) BPlusTreePage \<Rightarrow> 'k option" where
  "Leaf_KeyAt index p =
     (if index < length (leaf_array p) then Some (fst (leaf_array p ! index)) else None)"

definition Internal_KeyAt :: "nat \<Rightarrow> ('k, 'v) BPlusTreePage \<Rightarrow> 'k option" where
  "Internal_KeyAt index p =
     (if (if 0 < index then 1 else 0) < length (internal_array p) \<and> index < length (internal_array p)
      then Some (fst (internal_array p ! index)) else None)"

section \<open>B+Tree (b\_plus\_tree.cpp)\<close>

text \<open>
  The tree reaches its pages through the buffer pool manager, which is not among the
  sources.  The model keeps the pool as a map from page ids to pages; a pointer to a
  page is its page id.  Pin counts are left out: a page that is in the map can always
  be fetched.  \<open>free_page_ids\<close> are the page ids \<^verbatim>\<open>NewPage\<close> will hand out, in order;
  when none is left \<^verbatim>\<open>NewPage\<close> fails.  \<open>header_record\<close> is the root page id that the
  header page holds for this index.  The two maximal sizes are what \<^verbatim>\<open>Init\<close>
  computes from the page size and the size of a slot.
\<close>

record ('k, 'v) BPlusTree =
  root_page_id :: page_id_t
  pages :: "page_id_t \<rightharpoonup> ('k, 'v) BPlusTreePage"
  free_page_ids :: "page_id_t list"
  header_record :: "page_id_t option"
  leaf_max_size :: nat
  internal_max_size :: nat
  blank_key :: 'k

definition IsEmpty :: "('k, 'v) BPlusTree \<Rightarrow> bool" where
  "IsEmpty tree = (root_page_id tree = INVALID_PAGE_ID)"

definition FetchPage_tree :: "page_id_t \<Rightarrow> ('k, 'v) BPlusTree \<Rightarrow> ('k, 'v) BPlusTreePage option" where
  "FetchPage_tree pid tree = (if pid = INVALID_PAGE_ID then None else pages tree pid)"

definition NewPage :: "('k, 'v) BPlusTree \<Rightarrow> (page_id_t \<times> ('k, 'v) BPlusTree) option" where
  "NewPage tree =
     (case free_page_ids tree of
        [] \<Rightarrow> None
      | pid # rest \<Rightarrow> Some (pid, tree\<lparr>free_page_ids := rest\<rparr>))"

definition put_page :: "page_id_t \<Rightarrow> ('k, 'v) BPlusTreePage \<Rightarrow> ('k, 'v) BPlusTree \<Rightarrow> ('k, 'v) BPlusTree" where
  "put_page pid p tree = tree\<lparr>pages := (pages tree)(pid \<mapsto> p)\<rparr>"

text \<open>
  \<^verbatim>\<open>UpdateRootPageId\<close>: with \<open>insert_record\<close> a record is inserted into the header
  page unless there is one; without, the record is updated if there is one.
\<close>

definition UpdateRootPageId :: "bool \<Rightarrow> ('k, 'v) BPlusTree \<Rightarrow> ('k, 'v) BPlusTree" where
  "UpdateRootPageId insert_record tree =
     (if insert_record then
        (case header_record tree of
           None \<Rightarrow> tree\<lparr>header_record := Some (root_page_id tree)\<rparr>
         | Some r \<Rightarrow> tree)
      else
        (case header_record tree of
           None \<Rightarrow> tree
         | Some r \<Rightarrow> tree\<lparr>header_record := Some (root_page_id tree)\<rparr>))"

text \<open>
  \<^verbatim>\<open>FindLeafPage\<close>: the descent from the root.  The loop ends only at a leaf page, so
  it carries fuel.
\<close>

fun descend ::
  "nat \<Rightarrow> 'k::linorder \<Rightarrow> page_id_t \<Rightarrow> ('k, 'v) BPlusTree \<Rightarrow> page_id_t option" where
  "descend 0 key pid tree = None"
| "descend (Suc fuel) key pid tree =
     do { curr_page \<leftarrow> FetchPage_tree pid tree;
          if IsLeafPage curr_page then Some pid
          else do { next_page_id \<leftarrow> Internal_Lookup key curr_page;
                    descend fuel key next_page_id tree } }"

definition FindLeafPage :: "nat \<Rightarrow> 'k::linorder \<Rightarrow> ('k, 'v) BPlusTree \<Rightarrow> page_id_t option" where
  "FindLeafPage fuel key tree =
     (if IsEmpty tree then None else descend fuel key (root_page_id tree) tree)"

text \<open>
  \<^verbatim>\<open>GetValue\<close>: \<open>Some None\<close> is the return value false, \<open>Some (Some v)\<close> is true with
  the result \<open>v\<close>.
\<close>

definition GetValue :: "nat \<Rightarrow> 'k::linorder \<Rightarrow> ('k, 'v) BPlusTree \<Rightarrow> 'v option option" where
  "GetValue fuel key tree =
     (if IsEmpty tree then Some None
      else do { leaf_id \<leftarrow> FindLeafPage fuel key tree;
                leaf_page \<leftarrow> pages tree leaf_id;
                Some (Leaf_Lookup key leaf_page) })"

definition StartNewTree :: "'k::linorder \<Rightarrow> 'v \<Rightarrow> ('k, 'v) BPlusTree \<Rightarrow> ('k, 'v) BPlusTree option" where
  "StartNewTree key val tree =
     do { (new_id, tree1) \<leftarrow> NewPage tree;
          let tree2 = tree1\<lparr>root_page_id := new_id\<rparr>;
          (sz, root_node) \<leftarrow>
             Leaf_Insert key val (Leaf_Init new_id INVALID_PAGE_ID (leaf_max_size tree));
          Some (UpdateRootPageId True (put_page new_id root_node tree2)) }"

text \<open>\<^verbatim>\<open>Split\<close> for a leaf page and for an internal page.\<close>

definition Split_leaf ::
  "page_id_t \<Rightarrow> ('k, 'v) BPlusTree \<Rightarrow> (page_id_t \<times> ('k, 'v) BPlusTree) option" where
  "Split_leaf node_id tree =
     do { (new_page_id, tree1) \<leftarrow> NewPage tree;
          node \<leftarrow> pages tree1 node_id;
          let new_node = Leaf_Init new_page_id (parent_page_id node) (leaf_max_size tree);
          (node', new_node') \<leftarrow> Leaf_MoveHalfTo node new_node;
          Some (new_page_id, put_page node_id node' (put_page new_page_id new_node' tree1)) }"

text \<open>
  The page classes fetch pages through \<^verbatim>\<open>BPlusTreePage::FetchPage\<close>, which asserts
  that the page id of the calling page is valid.  \<^verbatim>\<open>CopyHalfFrom\<close>,
  \<^verbatim>\<open>CopyAllFrom\<close>, \<^verbatim>\<open>CopyLastFrom\<close> and \<^verbatim>\<open>CopyFirstFrom\<close> of an internal page
  fetch every child they copy and set its parent page id to the page id of the page
  that copies.
\<close>

definition Page_FetchPage ::
  "('k, 'v) BPlusTreePage \<Rightarrow> page_id_t \<Rightarrow> ('k, 'v) BPlusTree \<Rightarrow> ('k, 'v) BPlusTreePage option" where
  "Page_FetchPage this pid tree = (if page_id this = INVALID_PAGE_ID then None else pages tree pid)"

definition adopt_child ::
  "page_id_t \<Rightarrow> page_id_t \<Rightarrow> ('k, 'v) BPlusTree \<Rightarrow> ('k, 'v) BPlusTree option" where
  "adopt_child child_id parent_id tree =
     (if parent_id = INVALID_PAGE_ID then None
      else do { child \<leftarrow> pages tree child_id;
                Some (put_page child_id (child\<lparr>parent_page_id := parent_id\<rparr>) tree) })"

fun adopt_children ::
  "page_id_t list \<Rightarrow> page_id_t \<Rightarrow> ('k, 'v) BPlusTree \<Rightarrow> ('k, 'v) BPlusTree option" where
  "adopt_children [] parent_id tree = Some tree"
| "adopt_children (child_id # rest) parent_id tree =
     do { tree1 \<leftarrow> adopt_child child_id parent_id tree;
          adopt_children rest parent_id tree1 }"

definition Internal_MoveHalfTo ::
  "page_id_t \<Rightarrow> page_id_t \<Rightarrow> ('k, 'v) BPlusTree \<Rightarrow> ('k, 'v) BPlusTree option" where
  "Internal_MoveHalfTo this_id recipient_id tree =
     do { this \<leftarrow> pages tree this_id;
          recipient \<leftarrow> pages tree recipient_id;
          if length (internal_array this) \<noteq> max_size this + 1
             \<or> length (internal_array recipient) \<noteq> 0
          then None
          else do {
            let half = GetMinSize this;
            let moved = drop half (internal_array this);
            let tree1 = put_page recipient_id (recipient\<lparr>internal_array := moved\<rparr>) tree;
            tree2 \<leftarrow> adopt_children (map snd moved) (page_id recipient) tree1;
            this2 \<leftarrow> pages tree2 this_id;
            Some (put_page this_id
                    (this2\<lparr>internal_array := take half (internal_array this2)\<rparr>) tree2) } }"

definition Split_internal ::
  "page_id_t \<Rightarrow> ('k, 'v) BPlusTree \<Rightarrow> (page_id_t \<times> ('k, 'v) BPlusTree) option" where
  "Split_internal node_id tree =
     do { (new_page_id, tree1) \<leftarrow> NewPage tree;
          node \<leftarrow> pages tree1 node_id;
          let new_node = Internal_Init new_page_id (parent_page_id node) (internal_max_size tree);
          tree2 \<leftarrow> Internal_MoveHalfTo node_id new_page_id (put_page new_page_id new_node tree1);
          Some (new_page_id, tree2) }"

text \<open>
  \<^verbatim>\<open>InsertIntoParent\<close> climbs towards the root through the parent page ids; the
  recursion carries fuel.
\<close>

fun InsertIntoParent ::
  "nat \<Rightarrow> page_id_t \<Rightarrow> 'k \<Rightarrow> page_id_t \<Rightarrow> ('k, 'v) BPlusTree \<Rightarrow> ('k, 'v) BPlusTree option" where
  "InsertIntoParent 0 old_id key new_id tree = None"
| "InsertIntoParent (Suc fuel) old_id key new_id tree =
     do { old_node \<leftarrow> pages tree old_id;
          new_node \<leftarrow> pages tree new_id;
          let parent_id = parent_page_id old_node;
          if parent_id = INVALID_PAGE_ID then
            do { (new_page_id, tree1) \<leftarrow> NewPage tree;
                 new_root \<leftarrow> PopulateNewRoot (blank_key tree) (page_id old_node) key (page_id new_node)
                               (Internal_Init new_page_id INVALID_PAGE_ID (internal_max_size tree));
                 let tree2 = UpdateRootPageId False
                               ((put_page new_page_id new_root tree1)\<lparr>root_page_id := new_page_id\<rparr>);
                 old_node2 \<leftarrow> pages tree2 old_id;
                 let tree3 = put_page old_id (old_node2\<lparr>parent_page_id := page_id new_root\<rparr>) tree2;
                 new_node2 \<leftarrow> pages tree3 new_id;
                 Some (put_page new_id (new_node2\<lparr>parent_page_id := page_id new_root\<rparr>) tree3) }
          else
            do { parent_node \<leftarrow> FetchPage_tree parent_id tree;
                 (sz, parent_node') \<leftarrow>
                    InsertNodeAfter (page_id old_node) key (page_id new_node) parent_node;
                 let tree1 = put_page parent_id parent_node' tree;
                 if sz > max_size parent_node' then
                   do { (next_id, tree2) \<leftarrow> Split_internal parent_id tree1;
                        next_node \<leftarrow> pages tree2 next_id;
                        up_key \<leftarrow> Internal_KeyAt 0 next_node;
                        InsertIntoParent fuel parent_id up_key next_id tree2 }
                 else Some tree1 } }"

definition InsertIntoLeaf ::
  "nat \<Rightarrow> 'k::linorder \<Rightarrow> 'v \<Rightarrow> ('k, 'v) BPlusTree \<Rightarrow> (bool \<times> ('k, 'v) BPlusTree) option" where
  "InsertIntoLeaf fuel key val tree =
     do { leaf_id \<leftarrow> FindLeafPage fuel key tree;
          leaf_page \<leftarrow> pages tree leaf_id;
          let old_size = length (leaf_array leaf_page);
          (new_size, leaf_page') \<leftarrow> Leaf_Insert key val leaf_page;
          let inserted = (new_size \<noteq> old_size);
          let tree1 = put_page leaf_id leaf_page' tree;
          if new_size > max_size leaf_page' then
            do { (new_id, tree2) \<leftarrow> Split_leaf leaf_id tree1;
                 new_node \<leftarrow> pages tree2 new_id;
                 up_key \<leftarrow> Leaf_KeyAt 0 new_node;
                 tree3 \<leftarrow> InsertIntoParent fuel leaf_id up_key new_id tree2;
                 Some (inserted, tree3) }
          else Some (inserted, tree1) }"

definition Insert ::
  "nat \<Rightarrow> 'k::linorder \<Rightarrow> 'v \<Rightarrow> ('k, 'v) BPlusTree \<Rightarrow> (bool \<times> ('k, 'v) BPlusTree) option" where
  "Insert fuel key val tree =
     (if IsEmpty tree then map_option (Pair True) (StartNewTree key val tree)
      else InsertIntoLeaf fuel key val tree)"

text \<open>An empty tree with the given maximal sizes and supply of page ids.\<close>

definition empty_tree :: "nat \<Rightarrow> nat \<Rightarrow> 'k \<Rightarrow> page_id_t list \<Rightarrow> ('k, 'v) BPlusTree" where
  "empty_tree leaf_max internal_max blank ids =
     \<lparr>root_page_id = INVALID_PAGE_ID, pages = Map.empty, free_page_ids = ids,
      header_record = None, leaf_max_size = leaf_max, internal_max_size = internal_max,
      blank_key = blank\<rparr>"

text \<open>Inserting a list of keys, each with itself as its value.\<close>

fun insert_all :: "nat \<Rightarrow> 'k::linorder list \<Rightarrow> ('k, 'k) BPlusTree \<Rightarrow> ('k, 'k) BPlusTree option" where
  "insert_all fuel [] tree = Some tree"
| "insert_all fuel (key # keys) tree =
     do { (inserted, tree') \<leftarrow> Insert fuel key key tree; insert_all fuel keys tree' }"

text \<open>
  A sample tree: the root is the leaf page 1, full with three entries; the page ids 2
  and 3 are free.
\<close>

definition sample_leaf :: "(int, int) BPlusTreePage" where
  "sample_leaf =
     \<lparr>page_type = LEAF_PAGE, max_size = 3, parent_page_id = INVALID_PAGE_ID, page_id = 1,
      next_page_id = INVALID_PAGE_ID, leaf_array = [(1, 10), (2, 20), (3, 30)],
      internal_array = []\<rparr>"

definition sample_leaf_tree :: "(int, int) BPlusTree" where
  "sample_leaf_tree =
     \<lparr>root_page_id = 1, pages = [1 \<mapsto> sample_leaf], free_page_ids = [2, 3],
      header_record = Some 1, leaf_max_size = 3, internal_max_size = 3, blank_key = 0\<rparr>"

section \<open>B+Tree removal (b\_plus\_tree.cpp and the page classes)\<close>

subsection \<open>Leaf pages\<close>

definition RemoveAndDeleteRecord ::
  "'k::linorder \<Rightarrow> ('k, 'v) BPlusTreePage \<Rightarrow> (nat \<times> ('k, 'v) BPlusTreePage) option" where
  "RemoveAndDeleteRecord key p =
     (if \<not> length (leaf_array p) > 0 then None
      else
        let index = KeyIndex key p
        in if index < length (leaf_array p) \<and> comparator key (fst (leaf_array p ! index)) = 0
           then
             let p' = p\<lparr>leaf_array := take index (leaf_array p) @ drop (index + 1) (leaf_array p)\<rparr>
             in Some (length (leaf_array p'), p')
           else Some (length (leaf_array p), p))"

text \<open>
  \<^verbatim>\<open>SetKeyAt\<close> of an internal page; a store past the used slots is undefined.
\<close>

definition SetKeyAt :: "nat \<Rightarrow> 'k \<Rightarrow> ('k, 'v) BPlusTreePage \<Rightarrow> ('k, 'v) BPlusTreePage option" where
  "SetKeyAt index key p =
     (if (if 0 < index then 1 else 0) < length (internal_array p) \<and> index < length (internal_array p)
      then Some (p\<lparr>internal_array :=
                     (internal_array p)[index := (key, snd (internal_array p ! index))]\<rparr>)
      else None)"

text \<open>
  \<^verbatim>\<open>ValueAt\<close> of an internal page asserts \<^verbatim>\<open>0 <= index < GetSize()\<close>, that is
  \<^verbatim>\<open>(0 <= index) < GetSize()\<close>.
\<close>

definition ValueAt :: "int \<Rightarrow> ('k, 'v) BPlusTreePage \<Rightarrow> page_id_t option" where
  "ValueAt index p =
     (if (if 0 \<le> index then 1 else 0) < length (internal_array p)
         \<and> 0 \<le> index \<and> nat index < length (internal_array p)
      then Some (snd (internal_array p ! nat index)) else None)"

text \<open>
  \<^verbatim>\<open>MoveAllTo\<close> of a leaf page with \<^verbatim>\<open>CopyAllFrom\<close>: this page and the recipient
  after the call.
\<close>

definition Leaf_MoveAllTo ::
  "('k, 'v) BPlusTreePage \<Rightarrow> ('k, 'v) BPlusTreePage
   \<Rightarrow> (('k, 'v) BPlusTreePage \<times> ('k, 'v) BPlusTreePage) option" where
  "Leaf_MoveAllTo this recipient =
     (if \<not> (length (leaf_array this) \<le> GetMinSize this
             \<and> length (leaf_array recipient) \<le> GetMinSize recipient)
      then None
      else Some (this\<lparr>leaf_array := []\<rparr>,
                 recipient\<lparr>leaf_array := leaf_array recipient @ leaf_array this,
                             next_page_id := next_page_id this\<rparr>))"

text \<open>
  \<^verbatim>\<open>MoveFirstToEndOf\<close> and \<^verbatim>\<open>MoveLastToFrontOf\<close> of a leaf page, on the pool: the
  pages are named by their ids, and the parent is fetched under the parent page id of
  this page.
\<close>

definition Leaf_MoveFirstToEndOf ::
  "page_id_t \<Rightarrow> page_id_t \<Rightarrow> nat \<Rightarrow> ('k, 'v) BPlusTree \<Rightarrow> ('k, 'v) BPlusTree option" where
  "Leaf_MoveFirstToEndOf this_id recipient_id parent_index tree =
     do { this \<leftarrow> pages tree this_id;
          recipient \<leftarrow> pages tree recipient_id;
          if \<not> length (leaf_array this) > GetMinSize this
             \<or> \<not> length (leaf_array recipient) < GetMinSize recipient
          then None
          else do {
            let item = hd (leaf_array this);
            let tree1 = put_page recipient_id
                          (recipient\<lparr>leaf_array := leaf_array recipient @ [item]\<rparr>) tree;
            this1 \<leftarrow> pages tree1 this_id;
            let this2 = this1\<lparr>leaf_array := tl (leaf_array this1)\<rparr>;
            let tree2 = put_page this_id this2 tree1;
            parent \<leftarrow> Page_FetchPage this2 (parent_page_id this2) tree2;
            first_key \<leftarrow> Leaf_KeyAt 0 this2;
            parent' \<leftarrow> SetKeyAt parent_index first_key parent;
            Some (put_page (parent_page_id this2) parent' tree2) } }"

definition Leaf_MoveLastToFrontOf ::
  "page_id_t \<Rightarrow> page_id_t \<Rightarrow> nat \<Rightarrow> ('k, 'v) BPlusTree \<Rightarrow> ('k, 'v) BPlusTree option" where
  "Leaf_MoveLastToFrontOf this_id recipient_id parent_index tree =
     do { this \<leftarrow> pages tree this_id;
          recipient \<leftarrow> pages tree recipient_id;
          if \<not> length (leaf_array this) > GetMinSize this
             \<or> \<not> length (leaf_array recipient) < GetMinSize recipient
          then None
          else do {
            let item = last (leaf_array this);
            let recipient1 = recipient\<lparr>leaf_array := item # leaf_array recipient\<rparr>;
            let tree1 = put_page recipient_id recipient1 tree;
            this1 \<leftarrow> pages tree1 this_id;
            let this2 = this1\<lparr>leaf_array := butlast (leaf_array this1)\<rparr>;
            let tree2 = put_page this_id this2 tree1;
            parent \<leftarrow> Page_FetchPage this2 (parent_page_id this2) tree2;
            recipient2 \<leftarrow> pages tree2 recipient_id;
            first_key \<leftarrow> Leaf_KeyAt 0 recipient2;
            parent' \<leftarrow> SetKeyAt parent_index first_key parent;
            Some (put_page (parent_page_id this2) parent' tree2) } }"

subsection \<open>Internal pages\<close>

text \<open>
  \<^verbatim>\<open>Remove(index)\<close>: the slots after \<open>index\<close> move down by one and the size drops by
  one.
\<close>

definition Internal_Remove :: "nat \<Rightarrow> ('k, 'v) BPlusTreePage \<Rightarrow> ('k, 'v) BPlusTreePage option" where
  "Internal_Remove index p =
     (if \<not> length (internal_array p) > 0
         \<or> \<not> (if 0 < index then 1 else 0) < length (internal_array p)
      then None
      else if index < length (internal_array p)
      then Some (p\<lparr>internal_array := take index (internal_array p)
                                       @ drop (index + 1) (internal_array p)\<rparr>)
      else Some (p\<lparr>internal_array := butlast (internal_array p)\<rparr>))"

definition RemoveAndReturnOnlyChild ::
  "('k, 'v) BPlusTreePage \<Rightarrow> (page_id_t \<times> ('k, 'v) BPlusTreePage) option" where
  "RemoveAndReturnOnlyChild p =
     (if length (internal_array p) \<noteq> 1 then None
      else Some (snd (internal_array p ! 0), p\<lparr>internal_array := []\<rparr>))"

text \<open>
  \<^verbatim>\<open>MoveAllTo\<close> of an internal page: the separator key of the parent is stored in slot
  0 of this page, then all slots go to the end of the recipient, whose new children
  get it as their parent.
\<close>

definition Internal_MoveAllTo ::
  "page_id_t \<Rightarrow> page_id_t \<Rightarrow> nat \<Rightarrow> ('k, 'v) BPlusTree \<Rightarrow> ('k, 'v) BPlusTree option" where
  "Internal_MoveAllTo this_id recipient_id index_in_parent tree =
     do { this \<leftarrow> pages tree this_id;
          recipient \<leftarrow> pages tree recipient_id;
          if parent_page_id this \<noteq> parent_page_id recipient
             \<or> \<not> (length (internal_array this) < GetMinSize this
                   \<or> length (internal_array recipient) < GetMinSize recipient)
             \<or> \<not> (length (internal_array this) \<le> GetMinSize this
                   \<and> length (internal_array recipient) \<le> GetMinSize recipient)
          then None
          else do {
            parent \<leftarrow> Page_FetchPage this (parent_page_id this) tree;
            separator \<leftarrow> Internal_KeyAt index_in_parent parent;
            let items = (case internal_array this of
                           [] \<Rightarrow> []
                         | s # rest \<Rightarrow> (separator, snd s) # rest);
            let tree1 = put_page this_id (this\<lparr>internal_array := items\<rparr>) tree;
            recipient1 \<leftarrow> pages tree1 recipient_id;
            let tree2 = put_page recipient_id
                          (recipient1\<lparr>internal_array := internal_array recipient1 @ items\<rparr>) tree1;
            tree3 \<leftarrow> adopt_children (map snd items) (page_id recipient1) tree2;
            this3 \<leftarrow> pages tree3 this_id;
            Some (put_page this_id (this3\<lparr>internal_array := []\<rparr>) tree3) } }"

definition Internal_MoveFirstToEndOf ::
  "page_id_t \<Rightarrow> page_id_t \<Rightarrow> nat \<Rightarrow> ('k, 'v) BPlusTree \<Rightarrow> ('k, 'v) BPlusTree option" where
  "Internal_MoveFirstToEndOf this_id recipient_id parent_index tree =
     do { this \<leftarrow> pages tree this_id;
          recipient \<leftarrow> pages tree recipient_id;
          if \<not> length (internal_array this) > GetMinSize this
             \<or> \<not> length (internal_array recipient) < GetMinSize recipient
          then None
          else do {
            let parent_id = parent_page_id this;
            parent \<leftarrow> Page_FetchPage this parent_id tree;
            separator \<leftarrow> Internal_KeyAt parent_index parent;
            child \<leftarrow> ValueAt 0 this;
            let tree1 = put_page recipient_id
                          (recipient\<lparr>internal_array := internal_array recipient @ [(separator, child)]\<rparr>)
                          tree;
            tree2 \<leftarrow> adopt_child child (page_id recipient) tree1;
            this2 \<leftarrow> pages tree2 this_id;
            let this3 = this2\<lparr>internal_array := tl (internal_array this2)\<rparr>;
            let tree3 = put_page this_id this3 tree2;
            first_key \<leftarrow> Internal_KeyAt 0 this3;
            parent3 \<leftarrow> pages tree3 parent_id;
            parent' \<leftarrow> SetKeyAt parent_index first_key parent3;
            Some (put_page parent_id parent' tree3) } }"

text \<open>
  \<^verbatim>\<open>MoveLastToFrontOf\<close> of an internal page fetches its "parent" under the page id
  \<open>parent_index\<close>, and after the size has dropped it reads the key of the slot
  \<^verbatim>\<open>GetSize() - 1\<close>.  \<^verbatim>\<open>CopyFirstFrom\<close> shifts the slots up by one, then stores the key
  of the pair in slot 1 and the value of the pair in slot 0.  On a page without slots
  the store to slot 1 is past the one slot the page then has, and the key of slot 0 is
  not written; \<open>blank\<close> is the key the slot of the frame holds.
\<close>

definition Internal_CopyFirstFrom ::
  "'k \<Rightarrow> 'k \<times> page_id_t \<Rightarrow> ('k, 'v) BPlusTreePage \<Rightarrow> ('k, 'v) BPlusTreePage" where
  "Internal_CopyFirstFrom blank pair p =
     (case internal_array p of
        [] \<Rightarrow> p\<lparr>internal_array := [(blank, snd pair)]\<rparr>
      | s # rest \<Rightarrow> p\<lparr>internal_array := (fst s, snd pair) # (fst pair, snd s) # rest\<rparr>)"

definition Internal_MoveLastToFrontOf ::
  "page_id_t \<Rightarrow> page_id_t \<Rightarrow> nat \<Rightarrow> ('k, 'v) BPlusTree \<Rightarrow> ('k, 'v) BPlusTree option" where
  "Internal_MoveLastToFrontOf this_id recipient_id parent_index tree =
     do { this \<leftarrow> pages tree this_id;
          recipient \<leftarrow> pages tree recipient_id;
          if \<not> length (internal_array this) > GetMinSize this
             \<or> \<not> length (internal_array recipient) < GetMinSize recipient
          then None
          else do {
            let parent_id = word_of_nat parent_index;
            parent \<leftarrow> Page_FetchPage this parent_id tree;
            separator \<leftarrow> Internal_KeyAt parent_index parent;
            child \<leftarrow> ValueAt (int (length (internal_array this)) - 1) this;
            let recipient1 = Internal_CopyFirstFrom (blank_key tree) (separator, child) recipient;
            let tree1 = put_page recipient_id recipient1 tree;
            tree2 \<leftarrow> adopt_child child (page_id recipient1) tree1;
            this2 \<leftarrow> pages tree2 this_id;
            let this3 = this2\<lparr>internal_array := butlast (internal_array this2)\<rparr>;
            let tree3 = put_page this_id this3 tree2;
            last_key \<leftarrow> Internal_KeyAt (length (internal_array this3) - 1) this3;
            parent3 \<leftarrow> pages tree3 parent_id;
            parent' \<leftarrow> SetKeyAt parent_index last_key parent3;
            Some (put_page parent_id parent' tree3) } }"

subsection \<open>The tree\<close>

text \<open>
  The template parameter \<open>N\<close> of \<^verbatim>\<open>CoalesceOrRedistribute\<close>, \<^verbatim>\<open>Coalesce\<close> and
  \<^verbatim>\<open>Redistribute\<close> is the page class the pointers are viewed as: the leaf page class
  in the call from \<^verbatim>\<open>Remove\<close>, the internal page class in the recursion.
\<close>

definition size_as :: "IndexPageType \<Rightarrow> ('k, 'v) BPlusTreePage \<Rightarrow> nat" where
  "size_as N p = (if N = LEAF_PAGE then length (leaf_array p) else length (internal_array p))"

definition DeletePage :: "page_id_t \<Rightarrow> ('k, 'v) BPlusTree \<Rightarrow> ('k, 'v) BPlusTree" where
  "DeletePage pid tree = tree\<lparr>pages := (pages tree)(pid := None)\<rparr>"

definition AdjustRoot :: "page_id_t \<Rightarrow> ('k, 'v) BPlusTree \<Rightarrow> (bool \<times> ('k, 'v) BPlusTree) option" where
  "AdjustRoot old_root_id tree =
     do { old_root_node \<leftarrow> pages tree old_root_id;
          if IsLeafPage old_root_node \<and> GetSize old_root_node = 0 then
            Some (True, UpdateRootPageId False (tree\<lparr>root_page_id := INVALID_PAGE_ID\<rparr>))
          else if \<not> IsLeafPage old_root_node \<and> GetSize old_root_node = 1 then
            do { (new_root_pid, old_root') \<leftarrow> RemoveAndReturnOnlyChild old_root_node;
                 let tree1 = put_page old_root_id old_root' tree;
                 new_root_node \<leftarrow> FetchPage_tree new_root_pid tree1;
                 let tree2 = put_page new_root_pid
                               (new_root_node\<lparr>parent_page_id := INVALID_PAGE_ID\<rparr>) tree1;
                 Some (True, UpdateRootPageId False (tree2\<lparr>root_page_id := new_root_pid\<rparr>)) }
          else Some (False, tree) }"

definition MoveAllTo ::
  "IndexPageType \<Rightarrow> page_id_t \<Rightarrow> page_id_t \<Rightarrow> nat \<Rightarrow> ('k, 'v) BPlusTree
   \<Rightarrow> ('k, 'v) BPlusTree option" where
  "MoveAllTo N this_id recipient_id index tree =
     (if N = LEAF_PAGE then
        do { this \<leftarrow> pages tree this_id;
             recipient \<leftarrow> pages tree recipient_id;
             (this', recipient') \<leftarrow> Leaf_MoveAllTo this recipient;
             Some (put_page this_id this' (put_page recipient_id recipient' tree)) }
      else Internal_MoveAllTo this_id recipient_id index tree)"

definition Redistribute ::
  "IndexPageType \<Rightarrow> page_id_t \<Rightarrow> page_id_t \<Rightarrow> nat \<Rightarrow> ('k, 'v) BPlusTree
   \<Rightarrow> ('k, 'v) BPlusTree option" where
  "Redistribute N neighbor_id node_id index tree =
     (if index = 0 then
        (if N = LEAF_PAGE then Leaf_MoveFirstToEndOf neighbor_id node_id 1 tree
         else Internal_MoveFirstToEndOf neighbor_id node_id 1 tree)
      else
        (if N = LEAF_PAGE then Leaf_MoveLastToFrontOf neighbor_id node_id index tree
         else Internal_MoveLastToFrontOf neighbor_id node_id index tree))"

text \<open>
  \<^verbatim>\<open>CoalesceOrRedistribute\<close> and \<^verbatim>\<open>Coalesce\<close> call each other while they climb
  towards the root; the recursion carries fuel.  The result is the returned flag and
  the tree.
\<close>

fun CoalesceOrRedistribute ::
  "nat \<Rightarrow> IndexPageType \<Rightarrow> page_id_t \<Rightarrow> ('k, 'v) BPlusTree \<Rightarrow> (bool \<times> ('k, 'v) BPlusTree) option"
and Coalesce ::
  "nat \<Rightarrow> IndexPageType \<Rightarrow> page_id_t \<Rightarrow> page_id_t \<Rightarrow> page_id_t \<Rightarrow> nat \<Rightarrow> ('k, 'v) BPlusTree
   \<Rightarrow> (bool \<times> ('k, 'v) BPlusTree) option" where
  "CoalesceOrRedistribute 0 N node_id tree = None"
| "CoalesceOrRedistribute (Suc fuel) N node_id tree =
     do { node \<leftarrow> pages tree node_id;
          if IsRootPage node then AdjustRoot node_id tree
          else do {
            let parent_id = parent_page_id node;
            parent_node \<leftarrow> FetchPage_tree parent_id tree;
            let node_index = ValueIndex (page_id node) parent_node;
            let sibling_index = (if node_index = 0 then 1 else node_index - 1);
            sibling_page_id \<leftarrow> ValueAt sibling_index parent_node;
            sibling_node \<leftarrow> FetchPage_tree sibling_page_id tree;
            let coalesce = (size_as N sibling_node \<le> GetMinSize sibling_node);
            if coalesce then
              do { (delete_parent, tree1) \<leftarrow>
                      Coalesce fuel N sibling_page_id node_id parent_id (nat node_index) tree;
                   let tree2 = (if node_index = 0 then DeletePage sibling_page_id tree1 else tree1);
                   let tree3 = (if delete_parent then DeletePage parent_id tree2 else tree2);
                   Some (coalesce \<and> node_index \<noteq> 0, tree3) }
            else
              do { tree1 \<leftarrow> Redistribute N sibling_page_id node_id (nat node_index) tree;
                   Some (coalesce \<and> node_index \<noteq> 0, tree1) } } }"
| "Coalesce fuel N neighbor_id node_id parent_id index tree =
     do { let (node_id', neighbor_id', index') =
                (if index = 0 then (neighbor_id, node_id, 1) else (node_id, neighbor_id, index));
          tree1 \<leftarrow> MoveAllTo N node_id' neighbor_id' index' tree;
          parent \<leftarrow> pages tree1 parent_id;
          parent' \<leftarrow> Internal_Remove index' parent;
          let tree2 = put_page parent_id parent' tree1;
          if length (internal_array parent') < GetMinSize parent'
          then CoalesceOrRedistribute fuel INTERNAL_PAGE parent_id tree2
          else Some (False, tree2) }"

definition Remove :: "nat \<Rightarrow> 'k::linorder \<Rightarrow> ('k, 'v) BPlusTree \<Rightarrow> ('k, 'v) BPlusTree option" where
  "Remove fuel key tree =
     (if IsEmpty tree then Some tree
      else
        do { leaf_id \<leftarrow> FindLeafPage fuel key tree;
             leaf_page \<leftarrow> pages tree leaf_id;
             let old_size = length (leaf_array leaf_page);
             (new_size, leaf_page') \<leftarrow> RemoveAndDeleteRecord key leaf_page;
             let removed = (new_size \<noteq> old_size);
             let tree1 = put_page leaf_id leaf_page' tree;
             if removed \<and> new_size < GetMinSize leaf_page' then
               do { (delete_leaf, tree2) \<leftarrow> CoalesceOrRedistribute fuel LEAF_PAGE leaf_id tree1;
                    Some (if delete_leaf then DeletePage leaf_id tree2 else tree2) }
             else Some tree1 })"


section \<open>The search path of a key\<close>

text \<open>
  The keys of an internal page are those of its slots from 1 on; the search for a key
  takes the child in the slot after which the first greater key stands.
\<close>

definition slot_keys :: "('k, 'v) BPlusTreePage \<Rightarrow> 'k list" where
  "slot_keys p = map fst (tl (internal_array p))"

definition child_slot :: "'k::linorder \<Rightarrow> ('k, 'v) BPlusTreePage \<Rightarrow> nat" where
  "child_slot k p = length (filter (\<lambda>x. x \<le> k) (slot_keys p))"

definition parent_of :: "page_id_t list \<Rightarrow> page_id_t" where
  "parent_of ancestors = (case ancestors of [] \<Rightarrow> INVALID_PAGE_ID | g # rest \<Rightarrow> g)"

text \<open>
  \<open>search_path tree k c ancestors\<close>: the pages \<open>ancestors\<close>, from the parent of the page \<open>c\<close>
  up to the root, are the internal pages the search for \<open>k\<close> passes before it comes
  to \<open>c\<close>.  Each of them carries its own page id and the page id of its parent, holds
  between two and \<open>max_size\<close> slots with increasing keys and different children,
  none of which is the page or one of these pages, and has room for a split into two
  pages of at least two slots.
\<close>

fun search_path ::
  "('k::linorder, 'v) BPlusTree \<Rightarrow> 'k \<Rightarrow> page_id_t \<Rightarrow> page_id_t list \<Rightarrow> bool" where
  "search_path tree k c [] = (root_page_id tree = c)"
| "search_path tree k c (pid # ancestors) =
     (case pages tree pid of
        None \<Rightarrow> False
      | Some p \<Rightarrow>
          pid \<noteq> INVALID_PAGE_ID \<and> page_id p = pid \<and> \<not> IsLeafPage p
        \<and> parent_page_id p = parent_of ancestors
        \<and> 1 < length (internal_array p) \<and> length (internal_array p) \<le> max_size p
        \<and> 3 \<le> max_size p
        \<and> sorted_wrt (<) (slot_keys p)
        \<and> distinct (map snd (internal_array p))
        \<and> snd (internal_array p ! child_slot k p) = c
        \<and> list_all (\<lambda>child. child \<notin> set (pid # ancestors)) (map snd (internal_array p))
        \<and> search_path tree k pid ancestors)"

text \<open>
  The leaf page at the lower end of the path: its keys increase, and its maximal
  size is the one \<^verbatim>\<open>Init\<close> gives to every leaf page of the tree, at least one.
\<close>

definition search_leaf :: "('k::linorder, 'v) BPlusTree \<Rightarrow> page_id_t \<Rightarrow> page_id_t list \<Rightarrow> bool" where
  "search_leaf tree leaf_id ancestors =
     (case pages tree leaf_id of
        None \<Rightarrow> False
      | Some p \<Rightarrow>
          leaf_id \<noteq> INVALID_PAGE_ID \<and> page_id p = leaf_id \<and> IsLeafPage p
        \<and> parent_page_id p = parent_of ancestors
        \<and> max_size p = leaf_max_size tree \<and> 1 \<le> max_size p
        \<and> sorted_wrt (<) (map fst (leaf_array p)))"

text \<open>
  The page ids \<^verbatim>\<open>NewPage\<close> will hand out are valid, different, and not in use.
\<close>

definition free_page_ids_ok :: "('k, 'v) BPlusTree \<Rightarrow> bool" where
  "free_page_ids_ok tree =
     (distinct (free_page_ids tree)
      \<and> list_all (\<lambda>pid. pid \<noteq> INVALID_PAGE_ID \<and> pages tree pid = None) (free_page_ids tree))"

text \<open>
  \<open>insert_ready tree k path\<close>: an empty tree is ready when a leaf page may hold an
  entry; otherwise \<open>path\<close> lists the pages the search for \<open>k\<close> passes, the leaf page
  first and the root last.
\<close>

definition insert_ready :: "('k::linorder, 'v) BPlusTree \<Rightarrow> 'k \<Rightarrow> page_id_t list \<Rightarrow> bool" where
  "insert_ready tree k path =
     (free_page_ids_ok tree
      \<and> (if IsEmpty tree then path = [] \<and> 1 \<le> leaf_max_size tree
         else (case path of
                 [] \<Rightarrow> False
               | leaf_id # ancestors \<Rightarrow>
                   search_leaf tree leaf_id ancestors \<and> search_path tree k leaf_id ancestors)))"

text \<open>A page without its parent page id, which the search does not read.\<close>

definition page_content :: "('k, 'v) BPlusTreePage \<Rightarrow> ('k, 'v) BPlusTreePage" where
  "page_content p = p\<lparr>parent_page_id := INVALID_PAGE_ID\<rparr>"

text \<open>
  \<open>splits_at k ks c\<close>: the first \<open>c\<close> keys are at most \<open>k\<close> and the others are
  greater.  \<open>holds_entry k v arr\<close>: the entries of a leaf page hold \<open>(k, v)\<close>, after
  the smaller keys and before the greater ones.
\<close>

definition splits_at :: "'k::linorder \<Rightarrow> 'k list \<Rightarrow> nat \<Rightarrow> bool" where
  "splits_at k ks c =
     (c \<le> length ks \<and> list_all (\<lambda>x. x \<le> k) (take c ks) \<and> list_all (\<lambda>x. k < x) (drop c ks))"

definition holds_entry :: "'k::linorder \<Rightarrow> 'v \<Rightarrow> ('k \<times> 'v) list \<Rightarrow> bool" where
  "holds_entry k v arr =
     (\<exists>c < length arr. arr ! c = (k, v)
         \<and> list_all (\<lambda>x. x < k) (take c (map fst arr))
         \<and> list_all (\<lambda>x. k < x) (drop (Suc c) (map fst arr)))"

section \<open>Properties of the lock manager\<close>

lemma entry_ok_new: "entry_ok (GrantedTxns_new lt t)"
  by (simp add: entry_ok_def GrantedTxns_new_def)

lemma table_ok_update:
  "table_ok lm \<Longrightarrow> entry_ok g \<Longrightarrow> table_ok (lm\<lparr>lock_table := (lock_table lm)(rid \<mapsto> g)\<rparr>)"
  by (simp add: table_ok_def)

lemma table_ok_erase:
  "table_ok lm \<Longrightarrow> table_ok (lm\<lparr>lock_table := (lock_table lm)(rid := None)\<rparr>)"
  by (simp add: table_ok_def)

lemma table_ok_cv [simp]: "table_ok (lm\<lparr>cv_table := c\<rparr>) = table_ok lm"
  by (simp add: table_ok_def)

lemma table_ok_cv_acquire [simp]: "table_ok (cv_acquire rid lm) = table_ok lm"
  by (simp add: cv_acquire_def)

lemma table_ok_cv_release [simp]: "table_ok (cv_release rid lm) = table_ok lm"
  by (simp add: cv_release_def)

lemma table_ok_entry: "table_ok lm \<Longrightarrow> lock_table lm rid = Some g \<Longrightarrow> entry_ok g"
  unfolding table_ok_def by blast

lemma LockShared_grant_ok:
  "table_ok lm \<Longrightarrow> table_ok (snd (snd (LockShared_grant txn rid lm)))"
  by (auto simp: LockShared_grant_def GrantedTxns_new_def entry_ok_def
      intro!: table_ok_update dest: table_ok_entry split: option.splits)

lemma LockShared_ok:
  "table_ok lm \<Longrightarrow> table_ok (snd (snd (LockShared txn rid lm)))"
  by (auto simp: LockShared_def TxnStateValidForLock_def LockShared_grant_ok split: option.splits)

lemma install_exclusive_ok:
  "table_ok lm \<Longrightarrow> table_ok (snd (snd (install_exclusive txn rid lm)))"
  by (auto simp: install_exclusive_def entry_ok_new intro!: table_ok_update split: option.splits)

lemma LockExclusive_ok:
  "table_ok lm \<Longrightarrow> table_ok (snd (snd (LockExclusive txn rid lm)))"
  by (auto simp: LockExclusive_def TxnStateValidForLock_def install_exclusive_ok split: option.splits)

lemma LockUpgrade_ok:
  "table_ok lm \<Longrightarrow> table_ok (snd (snd (LockUpgrade txn rid lm)))"
  by (auto simp: LockUpgrade_def TxnStateValidForLock_def Let_def GrantedTxns_new_def entry_ok_def
      intro!: table_ok_update dest: table_ok_entry split: option.splits)

lemma entry_ok_erase:
  "entry_ok g \<Longrightarrow> granted_set g - {t} \<noteq> {} \<Longrightarrow>
   entry_ok (g\<lparr>granted_set := granted_set g - {t}\<rparr>)"
  by (auto simp: entry_ok_def)

lemma Unlock_ok:
  assumes "table_ok lm"
  shows "table_ok (snd (snd (Unlock txn rid lm)))"
proof (cases "lock_table lm rid")
  case None
  with assms show ?thesis by (simp add: Unlock_def)
next
  case (Some g)
  then have g: "entry_ok g" using assms by (rule table_ok_entry [rotated])
  show ?thesis
  proof (cases "granted_set g - {txn_id txn} = {}")
    case True
    with Some assms show ?thesis
      by (simp add: Unlock_def Let_def table_ok_erase)
  next
    case False
    with Some assms g show ?thesis
      by (simp add: Unlock_def Let_def table_ok_update entry_ok_erase)
  qed
qed

lemma resume_ok:
  "table_ok lm \<Longrightarrow> table_ok (snd (snd (resume req txn rid lm)))"
  by (cases req)
     (auto simp: resume_def LockShared_resume_def LockExclusive_resume_def LockUpgrade_resume_def
        split: prod.splits
        dest: LockShared_grant_ok [of lm txn rid] install_exclusive_ok [of lm txn rid])

lemma enqueue_manager: "manager (enqueue req rid res sys) = snd (snd res)"
  by (simp add: enqueue_def split: prod.splits)


text \<open>
  Claim C8.  In every reachable state of the lock manager, every row id present in the
  lock table has a non-empty granted set, and an EXCLUSIVE entry has exactly one
  holder; moreover each of LockShared, LockExclusive, LockUpgrade and Unlock (and the
  continuation of a blocked call) takes a table with this property to a table with
  this property.
\<close>

theorem lock_table_invariant:
  "(reachable sys \<longrightarrow> table_ok (manager sys))
   \<and> (table_ok lm \<longrightarrow>
        table_ok (snd (snd (LockShared txn rid lm)))
      \<and> table_ok (snd (snd (LockExclusive txn rid lm)))
      \<and> table_ok (snd (snd (LockUpgrade txn rid lm)))
      \<and> table_ok (snd (snd (Unlock txn rid lm)))
      \<and> table_ok (snd (snd (resume req txn rid lm))))"
proof -
  have "table_ok (manager sys)" if "reachable sys"
    using that
  proof (induction rule: reachable.induct)
    case (start strict)
    show ?case by (simp add: table_ok_def LockManager_new_def)
  next
    case (call_shared sys rid txn)
    then show ?case by (simp add: enqueue_manager LockShared_ok)
  next
    case (call_exclusive sys rid txn)
    then show ?case by (simp add: enqueue_manager LockExclusive_ok)
  next
    case (call_upgrade sys rid txn)
    then show ?case by (simp add: enqueue_manager LockUpgrade_ok)
  next
    case (call_unlock sys txn rid)
    then show ?case by (simp add: Unlock_ok)
  next
    case (wake sys i req txn rid)
    then show ?case by (simp add: resume_ok)
  qed
  then show ?thesis
    by (simp add: LockShared_ok LockExclusive_ok LockUpgrade_ok Unlock_ok resume_ok)
qed

theorem lock_table_invariant_witness:
  "reachable (enqueue ReqExclusive (0, 0)
       (LockExclusive \<lparr>txn_id = 3, state = GROWING, shared_lock_set = {}, exclusive_lock_set = {},
        prev_lsn = - 1, write_set = []\<rparr>
          (0, 0) (LockManager_new True))
       \<lparr>manager = LockManager_new True, waiting = []\<rparr>)
   \<and> table_ok (manager (enqueue ReqExclusive (0, 0)
       (LockExclusive \<lparr>txn_id = 3, state = GROWING, shared_lock_set = {}, exclusive_lock_set = {},
        prev_lsn = - 1, write_set = []\<rparr>
          (0, 0) (LockManager_new True))
       \<lparr>manager = LockManager_new True, waiting = []\<rparr>))
   \<and> lock_table (manager (enqueue ReqExclusive (0, 0)
       (LockExclusive \<lparr>txn_id = 3, state = GROWING, shared_lock_set = {}, exclusive_lock_set = {},
        prev_lsn = - 1, write_set = []\<rparr>
          (0, 0) (LockManager_new True))
       \<lparr>manager = LockManager_new True, waiting = []\<rparr>)) (0, 0)
     = Some \<lparr>lockType = EXCLUSIVE, granted_set = {3}\<rparr>"
proof -
  let ?sys0 = "\<lparr>manager = LockManager_new True, waiting = []\<rparr>"
  let ?txn = "\<lparr>txn_id = 3, state = GROWING, shared_lock_set = {}, exclusive_lock_set = {},
        prev_lsn = - 1, write_set = []\<rparr>"
  have r: "reachable (enqueue ReqExclusive (0, 0) (LockExclusive ?txn (0, 0) (manager ?sys0)) ?sys0)"
    by (rule reachable.call_exclusive [OF reachable.start])
  then have r': "reachable (enqueue ReqExclusive (0, 0)
      (LockExclusive ?txn (0, 0) (LockManager_new True)) ?sys0)"
    by simp
  from lock_table_invariant [THEN conjunct1, rule_format, OF r'] r'
  show ?thesis
    by (simp add: enqueue_def LockExclusive_def TxnStateValidForLock_def LockManager_new_def
        install_exclusive_def GrantedTxns_new_def)
qed

text \<open>
  Claim C2.  A transaction in GROWING state asks for a lock on a row id whose granted
  set is non-empty.  For LockShared against an EXCLUSIVE entry, and for LockExclusive
  against any entry: when the requester's id is greater than or equal to the smallest
  holder id, the requester's state becomes ABORTED and the call returns false with
  the manager unchanged (it does not wait); otherwise the call blocks, and then the
  requester's id is strictly smaller than every holder's id.
\<close>

theorem wait_die_rule:
  assumes "state txn = GROWING" and "lock_table lm rid = Some g"
    and "finite (granted_set g)" and "granted_set g \<noteq> {}"
  shows "(lockType g = EXCLUSIVE \<longrightarrow>
           (if Min (granted_set g) \<le> txn_id txn
            then LockShared txn rid lm = (Returned False, txn\<lparr>state := ABORTED\<rparr>, lm)
            else LockShared txn rid lm = (Blocked, txn, cv_acquire rid lm)
                 \<and> (\<forall>h \<in> granted_set g. txn_id txn < h)))
       \<and> (if Min (granted_set g) \<le> txn_id txn
            then LockExclusive txn rid lm = (Returned False, txn\<lparr>state := ABORTED\<rparr>, lm)
            else LockExclusive txn rid lm = (Blocked, txn, cv_acquire rid lm)
                 \<and> (\<forall>h \<in> granted_set g. txn_id txn < h))"
proof -
  have "\<forall>h \<in> granted_set g. txn_id txn < h" if "\<not> Min (granted_set g) \<le> txn_id txn"
  proof
    fix h assume "h \<in> granted_set g"
    then have "Min (granted_set g) \<le> h" using assms(3) by simp
    with that show "txn_id txn < h" by simp
  qed
  then show ?thesis
    using assms by (simp add: LockShared_def LockExclusive_def TxnStateValidForLock_def)
qed

theorem wait_die_rule_witness:
  "LockShared \<lparr>txn_id = 1, state = GROWING, shared_lock_set = {}, exclusive_lock_set = {},
        prev_lsn = - 1, write_set = []\<rparr> (0, 0)
      \<lparr>strict_2PL = True,
       lock_table = [(0, 0) \<mapsto> \<lparr>lockType = EXCLUSIVE, granted_set = {0}\<rparr>],
       cv_table = Map.empty\<rparr>
   = (Returned False,
      \<lparr>txn_id = 1, state = ABORTED, shared_lock_set = {}, exclusive_lock_set = {},
        prev_lsn = - 1, write_set = []\<rparr>,
      \<lparr>strict_2PL = True,
       lock_table = [(0, 0) \<mapsto> \<lparr>lockType = EXCLUSIVE, granted_set = {0}\<rparr>],
       cv_table = Map.empty\<rparr>)
   \<and> fst (LockExclusive \<lparr>txn_id = 0, state = GROWING, shared_lock_set = {}, exclusive_lock_set = {},
        prev_lsn = - 1, write_set = []\<rparr>
      (0, 0)
      \<lparr>strict_2PL = True,
       lock_table = [(0, 0) \<mapsto> \<lparr>lockType = SHARED, granted_set = {1, 2}\<rparr>],
       cv_table = Map.empty\<rparr>) = Blocked"
  using
    wait_die_rule [of "\<lparr>txn_id = 1, state = GROWING, shared_lock_set = {}, exclusive_lock_set = {},
        prev_lsn = - 1, write_set = []\<rparr>"
      "\<lparr>strict_2PL = True,
        lock_table = [(0, 0) \<mapsto> \<lparr>lockType = EXCLUSIVE, granted_set = {0}\<rparr>],
        cv_table = Map.empty\<rparr>" "(0, 0)" "\<lparr>lockType = EXCLUSIVE, granted_set = {0}\<rparr>"]
    wait_die_rule [of "\<lparr>txn_id = 0, state = GROWING, shared_lock_set = {}, exclusive_lock_set = {},
        prev_lsn = - 1, write_set = []\<rparr>"
      "\<lparr>strict_2PL = True,
        lock_table = [(0, 0) \<mapsto> \<lparr>lockType = SHARED, granted_set = {1, 2}\<rparr>],
        cv_table = Map.empty\<rparr>" "(0, 0)" "\<lparr>lockType = SHARED, granted_set = {1, 2}\<rparr>"]
  by simp

text \<open>
  Claim C10.  When Unlock is called for a row id that is absent from the lock table,
  or for a transaction that is not in the granted set of that row id, the call
  returns false, the transaction's state is ABORTED, and the lock manager (lock table
  and condition-variable table) is unchanged.
\<close>

theorem unlock_not_held:
  assumes "lock_table lm rid = None
           \<or> (\<exists>g. lock_table lm rid = Some g \<and> txn_id txn \<notin> granted_set g)"
  shows "Unlock txn rid lm = (False, txn\<lparr>state := ABORTED\<rparr>, lm)"
  using assms by (auto simp: Unlock_def)

theorem unlock_not_held_witness:
  "Unlock \<lparr>txn_id = 2, state = GROWING, shared_lock_set = {}, exclusive_lock_set = {},
        prev_lsn = - 1, write_set = []\<rparr> (0, 0)
      \<lparr>strict_2PL = False,
       lock_table = [(0, 0) \<mapsto> \<lparr>lockType = SHARED, granted_set = {0, 1}\<rparr>],
       cv_table = Map.empty\<rparr>
   = (False,
      \<lparr>txn_id = 2, state = ABORTED, shared_lock_set = {}, exclusive_lock_set = {},
        prev_lsn = - 1, write_set = []\<rparr>,
      \<lparr>strict_2PL = False,
       lock_table = [(0, 0) \<mapsto> \<lparr>lockType = SHARED, granted_set = {0, 1}\<rparr>],
       cv_table = Map.empty\<rparr>)"
  using unlock_not_held [of
      "\<lparr>strict_2PL = False,
        lock_table = [(0, 0) \<mapsto> \<lparr>lockType = SHARED, granted_set = {0, 1}\<rparr>],
        cv_table = Map.empty\<rparr>" "(0, 0)"
      "\<lparr>txn_id = 2, state = GROWING, shared_lock_set = {}, exclusive_lock_set = {},
        prev_lsn = - 1, write_set = []\<rparr>"]
  by simp


section \<open>Properties of the log record wire format\<close>

lemma length_int32_bytes [simp]: "length (int32_bytes w) = 4"
  by (simp add: int32_bytes_def)

lemma int32_of_bytes_int32_bytes [simp]: "int32_of_bytes (int32_bytes w) = w"
proof -
  have "(ucast (ucast w :: byte) :: 32 word) OR push_bit 8 (ucast (ucast (drop_bit 8 w) :: byte))
       OR push_bit 16 (ucast (ucast (drop_bit 16 w) :: byte))
       OR push_bit 24 (ucast (ucast (drop_bit 24 w) :: byte)) = w"
  proof (rule bit_word_eqI)
    fix n assume "n < LENGTH(32)"
    then consider "n < 8" | "8 \<le> n" "n < 16" | "16 \<le> n" "n < 24" | "24 \<le> n" "n < 32"
      by fastforce
    then show "bit (ucast (ucast w :: byte) OR push_bit 8 (ucast (ucast (drop_bit 8 w) :: byte))
       OR push_bit 16 (ucast (ucast (drop_bit 16 w) :: byte))
       OR push_bit 24 (ucast (ucast (drop_bit 24 w) :: byte)) :: 32 word) n = bit w n"
      by cases (auto simp: bit_simps)
  qed
  then show ?thesis by (simp add: int32_of_bytes_def int32_bytes_def)
qed

lemma memcpy_to_append:
  "length a \<le> length rest \<Longrightarrow>
   memcpy_to (pre @ rest) (int (length pre)) a = Some (pre @ a @ drop (length a) rest)"
  by (simp add: memcpy_to_def)

lemma memcpy_to_append_k:
  "pos = int (length pre) \<Longrightarrow> length a \<le> length rest \<Longrightarrow>
   memcpy_to (pre @ rest) pos a = Some (pre @ a @ drop (length a) rest)"
  by (simp add: memcpy_to_def)

lemma read_bytes_mid:
  "0 \<le> k \<Longrightarrow> nat k + n \<le> length bs \<Longrightarrow>
   read_bytes (pre @ bs @ post) (int (length pre) + k) n = Some (take n (drop (nat k) bs))"
  by (simp add: read_bytes_def nat_add_distrib)

lemma read_bytes_mid0:
  "n \<le> length bs \<Longrightarrow>
   read_bytes (pre @ bs @ post) (int (length pre)) n = Some (take n bs)"
  using read_bytes_mid [of 0 n bs pre post] by simp

lemma unat_GetLength: "length t < 2 ^ 31 \<Longrightarrow> unat (GetLength t) = length t"
  unfolding GetLength_def
  by (simp add: unat_of_nat take_bit_nat_eq_self)
lemma sint_GetLength: "length t < 2 ^ 31 \<Longrightarrow> sint (GetLength t) = int (length t)"
  unfolding GetLength_def
  by (simp add: signed_of_nat signed_take_bit_int_eq_self)

lemma memcpy_chain2:
  "length a + length b \<le> length rest \<Longrightarrow>
   memcpy_to (pre @ rest) (int (length pre)) a \<bind> (\<lambda>buf. memcpy_to buf (int (length pre) + int (length a)) b)
   = Some (pre @ (a @ b) @ drop (length a + length b) rest)"
proof -
  assume h: "length a + length b \<le> length rest"
  have 1: "memcpy_to (pre @ rest) (int (length pre)) a = Some (pre @ a @ drop (length a) rest)"
    using h by (simp add: memcpy_to_append)
  have 2: "memcpy_to ((pre @ a) @ drop (length a) rest) (int (length (pre @ a))) b
      = Some ((pre @ a) @ b @ drop (length b) (drop (length a) rest))"
    using h by (intro memcpy_to_append) simp
  show ?thesis using 1 2 by (simp add: add.commute)
qed



lemma length_rid_bytes [simp]: "length (rid_bytes r) = 8"
  by (simp add: rid_bytes_def)

lemma length_SerializeTo [simp]: "length (SerializeTo t) = 4 + length t"
  by (simp add: SerializeTo_def)

lemma length_header_bytes [simp]: "length (header_bytes r) = 20"
  by (simp add: header_bytes_def)

lemma memcpy_chain3:
  assumes "length a + length b + length c \<le> length rest"
  shows "memcpy_to (pre @ rest) (int (length pre)) a
           \<bind> (\<lambda>buf. memcpy_to buf (int (length pre) + int (length a)) b
           \<bind> (\<lambda>buf. memcpy_to buf (int (length pre) + int (length a) + int (length b)) c))
         = Some (pre @ (a @ b @ c) @ drop (length a + length b + length c) rest)"
proof -
  have 1: "memcpy_to (pre @ rest) (int (length pre)) a = Some (pre @ a @ drop (length a) rest)"
    using assms by (simp add: memcpy_to_append)
  have 2: "memcpy_to ((pre @ a) @ drop (length a) rest) (int (length (pre @ a))) b
      = Some ((pre @ a) @ b @ drop (length b) (drop (length a) rest))"
    using assms by (intro memcpy_to_append) simp
  have 3: "memcpy_to ((pre @ a @ b) @ drop (length a + length b) rest) (int (length (pre @ a @ b))) c
      = Some ((pre @ a @ b) @ c @ drop (length c) (drop (length a + length b) rest))"
    using assms by (intro memcpy_to_append) simp
  show ?thesis using 1 2 3 by (simp add: add.commute add.left_commute)
qed


lemma serialize_payload_bytes:
  assumes "length (payload_bytes r) \<le> length rest" and "tuples_fit r"
  shows "serialize_payload r (pre @ rest) (int (length pre))
         = Some (pre @ payload_bytes r @ drop (length (payload_bytes r)) rest)"
proof (cases "log_record_type r")
  case INSERT
  with assms memcpy_chain2 [of "rid_bytes (insert_rid r)" "SerializeTo (insert_tuple r)" rest pre]
  show ?thesis by (simp add: serialize_payload_def payload_bytes_def rid_size_def)
next
  case UPDATE
  with assms memcpy_chain3 [of "rid_bytes (update_rid r)" "SerializeTo (old_tuple r)"
      "SerializeTo (new_tuple r)" rest pre]
  show ?thesis
    by (simp add: serialize_payload_def payload_bytes_def rid_size_def sint_GetLength tuples_fit_def
        add.assoc)
next
  case NEWPAGE
  with assms show ?thesis
    by (simp add: serialize_payload_def payload_bytes_def memcpy_to_append)
next
  case APPLYDELETE
  with assms memcpy_chain2 [of "rid_bytes (delete_rid r)" "SerializeTo (delete_tuple r)" rest pre]
  show ?thesis by (simp add: serialize_payload_def payload_bytes_def rid_size_def)
next
  case MARKDELETE
  with assms memcpy_chain2 [of "rid_bytes (delete_rid r)" "SerializeTo (delete_tuple r)" rest pre]
  show ?thesis by (simp add: serialize_payload_def payload_bytes_def rid_size_def)
next
  case ROLLBACKDELETE
  with assms memcpy_chain2 [of "rid_bytes (delete_rid r)" "SerializeTo (delete_tuple r)" rest pre]
  show ?thesis by (simp add: serialize_payload_def payload_bytes_def rid_size_def)
qed (use assms in \<open>simp_all add: serialize_payload_def payload_bytes_def\<close>)


lemma read_int32_here:
  "pos = int (length pre) \<Longrightarrow> read_int32 (pre @ int32_bytes w @ post) pos = Some w"
  by (simp add: read_int32_def read_bytes_def)

lemma read_rid_here:
  "pos = int (length pre) \<Longrightarrow> read_rid (pre @ rid_bytes rid @ post) pos = Some rid"
proof -
  assume p: "pos = int (length pre)"
  have 1: "read_int32 (pre @ int32_bytes (fst rid) @ (int32_bytes (snd rid) @ post)) pos = Some (fst rid)"
    using p by (rule read_int32_here)
  have 2: "read_int32 ((pre @ int32_bytes (fst rid)) @ int32_bytes (snd rid) @ post) (pos + 4)
           = Some (snd rid)"
    using p by (intro read_int32_here) simp
  show ?thesis using 1 2 by (simp add: read_rid_def rid_bytes_def)
qed

lemma DeserializeFrom_here:
  assumes "pos = int (length pre)" and "length t < 2 ^ 31"
  shows "DeserializeFrom (pre @ SerializeTo t @ post) pos = Some t"
proof -
  have 1: "read_int32 (pre @ int32_bytes (GetLength t) @ (t @ post)) pos = Some (GetLength t)"
    using assms(1) by (rule read_int32_here)
  have 2: "read_bytes ((pre @ int32_bytes (GetLength t)) @ t @ post) (pos + 4) (length t) = Some t"
    using assms(1) by (simp add: read_bytes_def)
  show ?thesis
    using 1 2 assms(2) by (simp add: DeserializeFrom_def SerializeTo_def unat_GetLength)
qed

lemma deserialize_rid_tuple:
  assumes "length t < 2 ^ 31"
  shows "read_rid (pre @ (rid_bytes rid @ SerializeTo t) @ post) (int (length pre)) = Some rid
       \<and> DeserializeFrom (pre @ (rid_bytes rid @ SerializeTo t) @ post) (int (length pre) + rid_size)
           = Some t"
proof -
  have 1: "read_rid (pre @ rid_bytes rid @ (SerializeTo t @ post)) (int (length pre)) = Some rid"
    by (rule read_rid_here) simp
  have 2: "DeserializeFrom ((pre @ rid_bytes rid) @ SerializeTo t @ post) (int (length pre) + rid_size)
           = Some t"
    using assms by (intro DeserializeFrom_here) (simp_all add: rid_size_def)
  show ?thesis using 1 2 by simp
qed

lemma deserialize_payload_bytes:
  assumes "tuples_fit r" and "log_record_type r0 = log_record_type r"
  shows "\<exists>r'. deserialize_payload (pre @ payload_bytes r @ post) (int (length pre)) r0 = Some r'
              \<and> same_payload r r' \<and> same_header r0 r'"
proof (cases "log_record_type r")
  case INSERT
  with assms deserialize_rid_tuple [of "insert_tuple r" pre "insert_rid r" post]
  show ?thesis
    by (simp add: deserialize_payload_def payload_bytes_def tuples_fit_def same_payload_def
        same_header_def)
next
  case UPDATE
  have old: "length (old_tuple r) < 2 ^ 31" and new: "length (new_tuple r) < 2 ^ 31"
    using assms(1) by (simp_all add: tuples_fit_def)
  let ?buf = "pre @ (rid_bytes (update_rid r) @ SerializeTo (old_tuple r) @ SerializeTo (new_tuple r)) @ post"
  have 1: "read_rid (pre @ rid_bytes (update_rid r) @ (SerializeTo (old_tuple r) @ SerializeTo (new_tuple r) @ post))
             (int (length pre)) = Some (update_rid r)"
    by (rule read_rid_here) simp
  have 2: "DeserializeFrom ((pre @ rid_bytes (update_rid r)) @ SerializeTo (old_tuple r) @ (SerializeTo (new_tuple r) @ post))
             (int (length pre) + rid_size) = Some (old_tuple r)"
    using old by (intro DeserializeFrom_here) (simp_all add: rid_size_def)
  have 3: "DeserializeFrom ((pre @ rid_bytes (update_rid r) @ SerializeTo (old_tuple r)) @ SerializeTo (new_tuple r) @ post)
             (int (length pre) + rid_size + 4 + sint (GetLength (old_tuple r))) = Some (new_tuple r)"
    using old new by (intro DeserializeFrom_here) (simp_all add: rid_size_def sint_GetLength)
  from 1 2 3 UPDATE assms show ?thesis
    by (simp add: deserialize_payload_def payload_bytes_def same_payload_def same_header_def)
next
  case NEWPAGE
  with assms read_int32_here [of "int (length pre)" pre "prev_page_id r" post]
  show ?thesis
    by (simp add: deserialize_payload_def payload_bytes_def same_payload_def same_header_def)
next
  case APPLYDELETE
  with assms deserialize_rid_tuple [of "delete_tuple r" pre "delete_rid r" post]
  show ?thesis
    by (simp add: deserialize_payload_def payload_bytes_def tuples_fit_def same_payload_def
        same_header_def)
next
  case MARKDELETE
  with assms deserialize_rid_tuple [of "delete_tuple r" pre "delete_rid r" post]
  show ?thesis
    by (simp add: deserialize_payload_def payload_bytes_def tuples_fit_def same_payload_def
        same_header_def)
next
  case ROLLBACKDELETE
  with assms deserialize_rid_tuple [of "delete_tuple r" pre "delete_rid r" post]
  show ?thesis
    by (simp add: deserialize_payload_def payload_bytes_def tuples_fit_def same_payload_def
        same_header_def)
qed (use assms in \<open>simp_all add: deserialize_payload_def payload_bytes_def same_payload_def
        same_header_def\<close>)


lemma type_of_code_type_code [simp]: "type_of_code (type_code t) = t"
  by (cases t) (simp_all add: type_of_code_def type_code_def)

lemma length_payload_bytes:
  "int (length (payload_bytes r)) + HEADER_SIZE = serialized_length r"
  by (cases "log_record_type r")
     (simp_all add: payload_bytes_def serialized_length_def HEADER_SIZE_def rid_size_def)

lemma header_reads:
  assumes "off = int (length pre)"
  shows "read_int32 (pre @ header_bytes r @ post) off = Some (lr_size r)"
    and "read_int32 (pre @ header_bytes r @ post) (off + 4) = Some (lr_lsn r)"
    and "read_int32 (pre @ header_bytes r @ post) (off + 8) = Some (lr_txn_id r)"
    and "read_int32 (pre @ header_bytes r @ post) (off + 12) = Some (lr_prev_lsn r)"
    and "read_int32 (pre @ header_bytes r @ post) (off + 16) = Some (type_code (log_record_type r))"
proof -
  let ?a = "int32_bytes (lr_size r)" and ?b = "int32_bytes (lr_lsn r)"
  and ?c = "int32_bytes (lr_txn_id r)" and ?d = "int32_bytes (lr_prev_lsn r)"
  and ?e = "int32_bytes (type_code (log_record_type r))"
  have 1: "read_int32 (pre @ ?a @ (?b @ ?c @ ?d @ ?e @ post)) off = Some (lr_size r)"
    using assms by (rule read_int32_here)
  have 2: "read_int32 ((pre @ ?a) @ ?b @ (?c @ ?d @ ?e @ post)) (off + 4) = Some (lr_lsn r)"
    using assms by (intro read_int32_here) simp
  have 3: "read_int32 ((pre @ ?a @ ?b) @ ?c @ (?d @ ?e @ post)) (off + 8) = Some (lr_txn_id r)"
    using assms by (intro read_int32_here) simp
  have 4: "read_int32 ((pre @ ?a @ ?b @ ?c) @ ?d @ (?e @ post)) (off + 12) = Some (lr_prev_lsn r)"
    using assms by (intro read_int32_here) simp
  have 5: "read_int32 ((pre @ ?a @ ?b @ ?c @ ?d) @ ?e @ post) (off + 16)
           = Some (type_code (log_record_type r))"
    using assms by (intro read_int32_here) simp
  show "read_int32 (pre @ header_bytes r @ post) off = Some (lr_size r)"
    using 1 by (simp add: header_bytes_def)
  show "read_int32 (pre @ header_bytes r @ post) (off + 4) = Some (lr_lsn r)"
    using 2 by (simp add: header_bytes_def)
  show "read_int32 (pre @ header_bytes r @ post) (off + 8) = Some (lr_txn_id r)"
    using 3 by (simp add: header_bytes_def)
  show "read_int32 (pre @ header_bytes r @ post) (off + 12) = Some (lr_prev_lsn r)"
    using 4 by (simp add: header_bytes_def)
  show "read_int32 (pre @ header_bytes r @ post) (off + 16) = Some (type_code (log_record_type r))"
    using 5 by (simp add: header_bytes_def)
qed

lemma append_bytes:
  assumes len: "int (length (log_buffer lm)) = LOG_BUFFER_SIZE"
    and off: "0 \<le> offset lm"
    and fit: "tuples_fit r"
    and sz: "serialized_length r \<le> sint (lr_size r)"
    and room: "offset lm + sint (lr_size r) \<le> LOG_BUFFER_SIZE"
  shows "AppendLogRecord LOG_BUFFER_SIZE r lm =
           Appended (next_lsn lm) (r\<lparr>lr_lsn := next_lsn lm\<rparr>)
             (lm\<lparr>log_buffer :=
                    take (nat (offset lm)) (log_buffer lm)
                    @ header_bytes (r\<lparr>lr_lsn := next_lsn lm\<rparr>) @ payload_bytes r
                    @ drop (nat (serialized_length r)) (drop (nat (offset lm)) (log_buffer lm)),
                 offset := offset lm + sint (lr_size r),
                 next_lsn := next_lsn lm + 1\<rparr>)"
proof -
  let ?pre = "take (nat (offset lm)) (log_buffer lm)"
  let ?rest = "drop (nat (offset lm)) (log_buffer lm)"
  let ?s = "r\<lparr>lr_lsn := next_lsn lm\<rparr>"
  have pb: "payload_bytes ?s = payload_bytes r"
    by (cases "log_record_type r") (simp_all add: payload_bytes_def)
  have lp: "int (length (payload_bytes r)) + 20 = serialized_length r"
    using length_payload_bytes [of r] by (simp add: HEADER_SIZE_def)
  have n: "nat (offset lm) + (20 + length (payload_bytes r)) \<le> length (log_buffer lm)"
    using len off room sz lp by linarith
  have lpre: "int (length ?pre) = offset lm"
    using n off by simp
  have 1: "memcpy_to (?pre @ ?rest) (offset lm) (header_bytes ?s)
           = Some (?pre @ header_bytes ?s @ drop (length (header_bytes ?s)) ?rest)"
    using lpre n by (intro memcpy_to_append_k) simp_all
  have 2: "serialize_payload ?s ((?pre @ header_bytes ?s) @ drop 20 ?rest)
             (int (length (?pre @ header_bytes ?s)))
           = Some ((?pre @ header_bytes ?s) @ payload_bytes ?s
                    @ drop (length (payload_bytes ?s)) (drop 20 ?rest))"
    using fit n pb
    by (intro serialize_payload_bytes) (simp_all add: tuples_fit_def)
  have 3: "int (length (?pre @ header_bytes ?s)) = offset lm + HEADER_SIZE"
    using lpre by (simp add: HEADER_SIZE_def)
  have ns: "nat (serialized_length r) = length (payload_bytes r) + 20"
    using lp by linarith
  then have 4: "drop (length (payload_bytes r)) (drop 20 ?rest)
           = drop (nat (serialized_length r)) ?rest"
    by (simp add: ac_simps)
  have h1: "memcpy_to (log_buffer lm) (offset lm) (header_bytes ?s)
           = Some (?pre @ header_bytes ?s @ drop 20 ?rest)"
    using 1 by simp
  have h2: "serialize_payload ?s (?pre @ header_bytes ?s @ drop 20 ?rest) (offset lm + HEADER_SIZE)
           = Some (?pre @ header_bytes ?s @ payload_bytes r
                    @ drop (nat (serialized_length r)) ?rest)"
    using 2 pb ns unfolding 3 by (simp add: ac_simps)
  have "memcpy_to (log_buffer lm) (offset lm) (header_bytes ?s)
          \<bind> (\<lambda>buf. serialize_payload ?s buf (offset lm + HEADER_SIZE))
        = Some (?pre @ header_bytes ?s @ payload_bytes r @ drop (nat (serialized_length r)) ?rest)"
    unfolding h1 using h2 by simp
  then show ?thesis
    using room by (simp add: AppendLogRecord_def Let_def)
qed


lemma serialized_length_ge: "HEADER_SIZE \<le> serialized_length r"
  by (cases "log_record_type r") (simp_all add: serialized_length_def rid_size_def)


text \<open>
  Claim C7.  A log record of any type is appended to a log buffer of
  \<open>LOG_BUFFER_SIZE\<close> bytes in which it fits (the wait loop of AppendLogRecord has
  ended), its size field covering the bytes its type serialises.  Then
  AppendLogRecord stamps the next sequence number on it, and DeserializeLogRecord,
  run on the bytes at the position of the append, succeeds and yields a record with
  the same size, sequence number, transaction id, previous sequence number and type,
  and with the same payload.
\<close>

theorem log_record_round_trip:
  assumes len: "int (length (log_buffer lm)) = LOG_BUFFER_SIZE"
    and off: "0 \<le> offset lm"
    and fit: "tuples_fit r"
    and sz: "serialized_length r \<le> sint (lr_size r)"
    and room: "offset lm + sint (lr_size r) \<le> LOG_BUFFER_SIZE"
  shows "\<exists>lm' r'.
           AppendLogRecord LOG_BUFFER_SIZE r lm
             = Appended (next_lsn lm) (r\<lparr>lr_lsn := next_lsn lm\<rparr>) lm'
         \<and> DeserializeLogRecord LOG_BUFFER_SIZE (offset lm) (log_buffer lm') (offset lm) r0
             = Parsed r'
         \<and> same_header (r\<lparr>lr_lsn := next_lsn lm\<rparr>) r'
         \<and> same_payload r r'"
proof -
  let ?pre = "take (nat (offset lm)) (log_buffer lm)"
  let ?post = "drop (nat (serialized_length r)) (drop (nat (offset lm)) (log_buffer lm))"
  let ?s = "r\<lparr>lr_lsn := next_lsn lm\<rparr>"
  let ?buf = "?pre @ header_bytes ?s @ payload_bytes r @ ?post"
  let ?lm = "lm\<lparr>log_buffer := ?buf, offset := offset lm + sint (lr_size r),
                 next_lsn := next_lsn lm + 1\<rparr>"
  let ?r1 = "r0\<lparr>lr_size := lr_size r, lr_lsn := next_lsn lm, lr_txn_id := lr_txn_id r,
                lr_prev_lsn := lr_prev_lsn r, log_record_type := log_record_type r\<rparr>"
  have app: "AppendLogRecord LOG_BUFFER_SIZE r lm = Appended (next_lsn lm) ?s ?lm"
    using assms by (rule append_bytes)
  have hs: "HEADER_SIZE \<le> sint (lr_size r)"
    using serialized_length_ge [of r] sz by simp
  have lpre: "offset lm = int (length ?pre)"
    using len off room hs by (simp add: HEADER_SIZE_def)
  note rd = header_reads [OF lpre, of ?s "payload_bytes r @ ?post"]
  have lpre2: "offset lm + HEADER_SIZE = int (length (?pre @ header_bytes ?s))"
    using lpre by (simp add: HEADER_SIZE_def)
  obtain r' where r':
    "deserialize_payload ((?pre @ header_bytes ?s) @ payload_bytes r @ ?post)
        (int (length (?pre @ header_bytes ?s))) ?r1 = Some r'"
    "same_payload r r'" "same_header ?r1 r'"
    using deserialize_payload_bytes [OF fit, of ?r1 "?pre @ header_bytes ?s" ?post] by auto
  have dp: "deserialize_payload ?buf (offset lm + HEADER_SIZE) ?r1 = Some r'"
    using r'(1) unfolding lpre2 by simp
  have "DeserializeLogRecord LOG_BUFFER_SIZE (offset lm) ?buf (offset lm) r0 = Parsed r'"
    using rd dp hs room by (simp add: DeserializeLogRecord_def HEADER_SIZE_def)
  moreover have "same_header ?s r'"
    using r'(3) by (simp add: same_header_def)
  ultimately show ?thesis
    using app r'(2) by (intro exI [of _ ?lm] exI [of _ r']) simp
qed


theorem log_record_round_trip_witness:
  "\<exists>lm' r'.
     AppendLogRecord 64 sample_update sample_log_manager
       = Appended 5 (sample_update\<lparr>lr_lsn := 5\<rparr>) lm'
   \<and> DeserializeLogRecord 64 0 (log_buffer lm') 0 blank_record = Parsed r'
   \<and> same_header (sample_update\<lparr>lr_lsn := 5\<rparr>) r'
   \<and> same_payload sample_update r'"
proof -
  have 1: "int (length (log_buffer sample_log_manager)) = 64"
    by (simp add: sample_log_manager_def)
  have 2: "0 \<le> offset sample_log_manager"
    by (simp add: sample_log_manager_def)
  have 3: "tuples_fit sample_update"
    by (simp add: tuples_fit_def sample_update_def blank_record_def)
  have 4: "serialized_length sample_update \<le> sint (lr_size sample_update)"
    by (simp add: serialized_length_def sample_update_def blank_record_def HEADER_SIZE_def
        rid_size_def)
  have 5: "offset sample_log_manager + sint (lr_size sample_update) \<le> 64"
    by (simp add: sample_update_def blank_record_def sample_log_manager_def)
  from log_record_round_trip [OF 1 2 3 4 5, of blank_record]
  show ?thesis by (simp add: sample_log_manager_def)
qed


section \<open>Properties of the undo pass\<close>

lemma deserialize_payload_insert_rid:
  "deserialize_payload buf data r = Some r' \<Longrightarrow> log_record_type r \<noteq> INSERT \<Longrightarrow>
   insert_rid r' = insert_rid r \<and> log_record_type r' = log_record_type r"
  by (cases "log_record_type r")
     (auto simp: deserialize_payload_def split: Option.bind_splits)

text \<open>
  A record of any type but INSERT comes out of DeserializeLogRecord with the
  \<^verbatim>\<open>insert_rid_\<close> of the record object it was read into.
\<close>

lemma deserialize_keeps_insert_rid:
  assumes "DeserializeLogRecord LOG_BUFFER_SIZE offs buf data fresh = Parsed record"
    and "log_record_type record \<noteq> INSERT"
  shows "insert_rid record = insert_rid fresh"
proof -
  from assms(1) obtain r1 where
    d: "deserialize_payload buf (data + HEADER_SIZE) r1 = Some record"
    and r1: "insert_rid r1 = insert_rid fresh"
    by (auto simp: DeserializeLogRecord_def split: if_splits option.splits Option.bind_splits)
  show ?thesis
  proof (cases "log_record_type r1 = INSERT")
    case True
    then have "log_record_type record = INSERT"
      using d by (auto simp: deserialize_payload_def split: Option.bind_splits)
    with assms(2) show ?thesis by simp
  next
    case False
    with deserialize_payload_insert_rid [OF d] r1 show ?thesis by simp
  qed
qed

text \<open>
  So the undo of an UPDATE, APPLYDELETE, MARKDELETE or ROLLBACKDELETE record read into a
  new record object fetches the page of that object's row id, not the page of the
  row the log record names.
\<close>

lemma undo_record_fetches:
  assumes "DeserializeLogRecord LOG_BUFFER_SIZE offs buf data fresh = Parsed record"
    and "log_record_type record \<in> {UPDATE, APPLYDELETE, MARKDELETE, ROLLBACKDELETE}"
  shows "\<exists>call. undo_record record =
           Inr [FetchPage (fst (insert_rid fresh)), Call (fst (insert_rid fresh)) call,
                UnpinPage (fst (insert_rid fresh)) True]"
proof -
  have "insert_rid record = insert_rid fresh"
    using assms by (intro deserialize_keeps_insert_rid [OF assms(1)]) auto
  with assms(2) show ?thesis
    by (auto simp: undo_record_def Let_def)
qed

text \<open>
  Claim C4, at a concrete log.  Transaction 2 is a loser whose chain is BEGIN, then an
  UPDATE of row (7, 4).  The undo pass re-updates with the old and the new tuple
  swapped, but on the page it fetched under page id \<open>-1\<close> (the page id of a
  default-constructed row id), not on page 7, the page of the record's row.
\<close>

theorem undo_update_fetches_default_page:
  "Undo 10 64 default_record loser_log [0 \<mapsto> 0, 1 \<mapsto> 20] [(2, 1)]
   = (Completed,
      [FetchPage (- 1), Call (- 1) (UpdateTuple [1, 2] [3] (7, 4)), UnpinPage (- 1) True])"
  by code_simp


section \<open>Properties of commit\<close>

subsection \<open>Releasing a lock\<close>

lemma Unlock_cases:
  assumes st: "state t = COMMITTED \<or> state t = ABORTED"
    and un: "Unlock t rid lm = (ok, t', lm')"
  shows "((lock_table lm rid = None
            \<or> (\<exists>g. lock_table lm rid = Some g \<and> txn_id t \<notin> granted_set g))
          \<and> t' = t\<lparr>state := ABORTED\<rparr> \<and> lm' = lm)
       \<or> (\<exists>g. lock_table lm rid = Some g \<and> txn_id t \<in> granted_set g
              \<and> t' = (if lockType g = SHARED
                       then t\<lparr>shared_lock_set := shared_lock_set t - {rid}\<rparr>
                       else t\<lparr>exclusive_lock_set := exclusive_lock_set t - {rid}\<rparr>)
              \<and> lock_table lm' =
                  (if granted_set g - {txn_id t} = {} then (lock_table lm)(rid := None)
                   else (lock_table lm)(rid \<mapsto> g\<lparr>granted_set := granted_set g - {txn_id t}\<rparr>)))"
proof (cases "lock_table lm rid")
  case None
  with un st show ?thesis by (auto simp: Unlock_def)
next
  case (Some g)
  show ?thesis
  proof (cases "txn_id t \<in> granted_set g")
    case False
    with un st Some show ?thesis by (auto simp: Unlock_def)
  next
    case True
    with un st Some show ?thesis
      by (cases "granted_set g - {txn_id t} = {}"; cases "lockType g = SHARED")
         (auto simp: Unlock_def Let_def)
  qed
qed

lemma locks_agreeD:
  assumes "locks_agree t lm"
  shows "(r \<in> shared_lock_set t) =
          (\<exists>g. lock_table lm r = Some g \<and> lockType g = SHARED \<and> txn_id t \<in> granted_set g)"
    "(r \<in> exclusive_lock_set t) =
          (\<exists>g. lock_table lm r = Some g \<and> lockType g = EXCLUSIVE \<and> txn_id t \<in> granted_set g)"
  using assms unfolding locks_agree_def by blast+

lemma locks_agreeI:
  assumes "\<And>r. (r \<in> shared_lock_set t) =
          (\<exists>g. lock_table lm r = Some g \<and> lockType g = SHARED \<and> txn_id t \<in> granted_set g)"
    "\<And>r. (r \<in> exclusive_lock_set t) =
          (\<exists>g. lock_table lm r = Some g \<and> lockType g = EXCLUSIVE \<and> txn_id t \<in> granted_set g)"
  shows "locks_agree t lm"
  using assms unfolding locks_agree_def by blast

lemma Unlock_agree:
  assumes agree: "locks_agree t lm"
    and st: "state t = COMMITTED \<or> state t = ABORTED"
    and un: "Unlock t rid lm = (ok, t', lm')"
  shows "locks_agree t' lm'" "txn_id t' = txn_id t"
    "state t' = COMMITTED \<or> state t' = ABORTED"
    "write_set t' = write_set t" "prev_lsn t' = prev_lsn t"
    "rid \<notin> shared_lock_set t'" "rid \<notin> exclusive_lock_set t'"
    "shared_lock_set t' \<subseteq> shared_lock_set t" "exclusive_lock_set t' \<subseteq> exclusive_lock_set t"
    "\<forall>r. r \<noteq> rid \<longrightarrow> lock_table lm' r = lock_table lm r"
proof -
  note a = locks_agreeD [OF agree]
  from Unlock_cases [OF st un]
  have "locks_agree t' lm' \<and> txn_id t' = txn_id t
      \<and> (state t' = COMMITTED \<or> state t' = ABORTED)
      \<and> write_set t' = write_set t \<and> prev_lsn t' = prev_lsn t
      \<and> rid \<notin> shared_lock_set t' \<and> rid \<notin> exclusive_lock_set t'
      \<and> shared_lock_set t' \<subseteq> shared_lock_set t \<and> exclusive_lock_set t' \<subseteq> exclusive_lock_set t
      \<and> (\<forall>r. r \<noteq> rid \<longrightarrow> lock_table lm' r = lock_table lm r)"
  proof (elim disjE conjE exE)
    assume f: "lock_table lm rid = None" and t': "t' = t\<lparr>state := ABORTED\<rparr>" and lm': "lm' = lm"
    have "locks_agree t' lm'"
      using a by (intro locks_agreeI) (simp_all add: t' lm')
    moreover have "rid \<notin> shared_lock_set t'" "rid \<notin> exclusive_lock_set t'"
      using a [of rid] f by (simp_all add: t')
    ultimately show ?thesis using st by (simp add: t' lm')
  next
    fix g assume f: "lock_table lm rid = Some g" "txn_id t \<notin> granted_set g"
      and t': "t' = t\<lparr>state := ABORTED\<rparr>" and lm': "lm' = lm"
    have "locks_agree t' lm'"
      using a by (intro locks_agreeI) (simp_all add: t' lm')
    moreover have "rid \<notin> shared_lock_set t'" "rid \<notin> exclusive_lock_set t'"
      using a [of rid] f by (simp_all add: t')
    ultimately show ?thesis using st by (simp add: t' lm')
  next
    fix g assume f: "lock_table lm rid = Some g" "txn_id t \<in> granted_set g"
      and t': "t' = (if lockType g = SHARED
                       then t\<lparr>shared_lock_set := shared_lock_set t - {rid}\<rparr>
                       else t\<lparr>exclusive_lock_set := exclusive_lock_set t - {rid}\<rparr>)"
      and lm': "lock_table lm' =
                  (if granted_set g - {txn_id t} = {} then (lock_table lm)(rid := None)
                   else (lock_table lm)(rid \<mapsto> g\<lparr>granted_set := granted_set g - {txn_id t}\<rparr>))"
    have ty: "lockType g = SHARED \<or> lockType g = EXCLUSIVE" by (cases "lockType g") auto
    have "locks_agree t' lm'"
    proof (intro locks_agreeI)
      fix r
      show "(r \<in> shared_lock_set t') =
          (\<exists>g. lock_table lm' r = Some g \<and> lockType g = SHARED \<and> txn_id t' \<in> granted_set g)"
        using a(1) [of r] a(1) [of rid] f ty by (cases "r = rid") (auto simp: t' lm')
      show "(r \<in> exclusive_lock_set t') =
          (\<exists>g. lock_table lm' r = Some g \<and> lockType g = EXCLUSIVE \<and> txn_id t' \<in> granted_set g)"
        using a(2) [of r] a(2) [of rid] f ty by (cases "r = rid") (auto simp: t' lm')
    qed
    moreover have "rid \<notin> shared_lock_set t'" "rid \<notin> exclusive_lock_set t'"
      using a [of rid] f ty by (auto simp: t')
    ultimately show ?thesis using st by (auto simp: t' lm')
  qed
  then show "locks_agree t' lm'" "txn_id t' = txn_id t"
    "state t' = COMMITTED \<or> state t' = ABORTED"
    "write_set t' = write_set t" "prev_lsn t' = prev_lsn t"
    "rid \<notin> shared_lock_set t'" "rid \<notin> exclusive_lock_set t'"
    "shared_lock_set t' \<subseteq> shared_lock_set t" "exclusive_lock_set t' \<subseteq> exclusive_lock_set t"
    "\<forall>r. r \<noteq> rid \<longrightarrow> lock_table lm' r = lock_table lm r"
    by blast+
qed

subsection \<open>Invariants of the commit steps\<close>

lemma Appended_facts:
  assumes "AppendLogRecord LOG_BUFFER_SIZE r0 lm = Appended lsn r lm'"
  shows "lsn = next_lsn lm" and "r = r0\<lparr>lr_lsn := next_lsn lm\<rparr>"
    and "next_lsn lm' = next_lsn lm + 1" and "persistent_lsn lm' = persistent_lsn lm"
  using assms
  by (auto simp: AppendLogRecord_def Let_def split: if_splits option.splits)

lemma sint_succ: "sint (n :: 32 word) < 2 ^ 31 - 1 \<Longrightarrow> sint (n + 1) = sint n + 1"
proof -
  assume h: "sint n < 2 ^ 31 - 1"
  have "- (2 ^ 31) \<le> sint n" using sint_ge [of n] by simp
  then show ?thesis
    using h by (simp add: sint_word_ariths signed_take_bit_int_eq_self)
qed

lemma sint_pred: "0 \<le> sint (n :: 32 word) \<Longrightarrow> sint (n - 1) = sint n - 1"
proof -
  assume h: "0 \<le> sint n"
  have "sint n < 2 ^ 31" using sint_lt [of n] by simp
  then show ?thesis
    using h by (simp add: sint_word_ariths signed_take_bit_int_eq_self)
qed

lemma holds_lock_agree:
  assumes "locks_agree (c_txn s) (c_locks s)"
  shows "holds_lock s rid =
           (rid \<in> shared_lock_set (c_txn s) \<or> rid \<in> exclusive_lock_set (c_txn s))"
proof -
  note a = locks_agreeD [OF assms, of rid]
  show ?thesis
  proof (cases "lock_table (c_locks s) rid")
    case None
    then show ?thesis by (simp add: holds_lock_def)
  next
    case (Some g)
    have "lockType g = SHARED \<or> lockType g = EXCLUSIVE" by (cases "lockType g") auto
    with a Some show ?thesis by (auto simp: holds_lock_def)
  qed
qed

lemma commit_start_inv: "commit_start s \<Longrightarrow> log_inv s \<and> lock_inv s s"
  by (simp add: commit_start_def log_inv_def lock_inv_def commit_deletes_def)

lemma commit_deletes_Nil [simp]: "commit_deletes [] = []"
  by (simp add: commit_deletes_def)

lemma log_inv_step:
  assumes "commit_step LOG_BUFFER_SIZE True label s = Some s'" and "log_inv s"
  shows "log_inv s'"
proof (cases label)
  case SetCommitted
  with assms show ?thesis
    by (auto simp: commit_step_def log_inv_def split: if_splits)
next
  case Drain
  with assms show ?thesis
    by (auto simp: commit_step_def log_inv_def Let_def split: if_splits prod.splits)
next
  case (EndDrain rids)
  with assms show ?thesis
    by (auto simp: commit_step_def log_inv_def split: if_splits)
next
  case AppendCommit
  with assms obtain lsn r lm' where
    a: "AppendLogRecord LOG_BUFFER_SIZE
          (LogRecord_txn (txn_id (c_txn s)) (prev_lsn (c_txn s)) COMMIT) (c_log s)
        = Appended lsn r lm'"
    and s': "s' = s\<lparr>c_txn := (c_txn s)\<lparr>prev_lsn := lsn\<rparr>, c_log := lm',
                    commit_record := Some r, c_pc := AwaitFlush lsn\<rparr>"
    and pc: "c_pc s = Appending" and b: "sint (next_lsn (c_log s)) < 2 ^ 31 - 1"
    by (auto simp: commit_step_def split: if_splits append_result.splits)
  from Appended_facts [OF a] s' pc b assms(2)
  show ?thesis by (auto simp: log_inv_def sint_succ LogRecord_txn_def)
next
  case WaitForLogFlush
  with assms show ?thesis
    by (auto simp: commit_step_def split: if_splits commit_pc.splits)
next
  case (Flushed rids)
  with assms show ?thesis
    by (auto simp: commit_step_def log_inv_def split: if_splits commit_pc.splits)
next
  case Release
  with assms show ?thesis
    by (auto simp: commit_step_def log_inv_def split: if_splits commit_pc.splits list.splits
        prod.splits)
next
  case Return
  with assms show ?thesis
    by (auto simp: commit_step_def log_inv_def split: if_splits commit_pc.splits list.splits)
next
  case FlushSwap
  with assms show ?thesis
    by (auto simp: commit_step_def log_inv_def SwapBuffer_def sint_pred split: option.splits)
next
  case FlushDone
  with assms show ?thesis
    by (auto simp: commit_step_def log_inv_def split: option.splits)
next
  case (OtherAppend r0)
  with assms obtain lsn r lm' where
    a: "AppendLogRecord LOG_BUFFER_SIZE r0 (c_log s) = Appended lsn r lm'"
    and s': "s' = s\<lparr>c_log := lm'\<rparr>"
    and b: "sint (next_lsn (c_log s)) < 2 ^ 31 - 1"
    by (auto simp: commit_step_def split: if_splits append_result.splits)
  from Appended_facts [OF a] s' b assms(2)
  show ?thesis by (auto simp: log_inv_def sint_succ)
qed

lemma lock_inv_cong:
  "c_txn s' = c_txn s \<Longrightarrow> c_locks s' = c_locks s \<Longrightarrow> c_pc s' = c_pc s
   \<Longrightarrow> lock_inv s0 s' = lock_inv s0 s"
  by (simp add: lock_inv_def)

lemma lock_inv_SetCommitted:
  assumes "lock_inv s0 s" "c_pc s = NotStarted"
  shows "lock_inv s0 (s\<lparr>c_txn := (c_txn s)\<lparr>state := COMMITTED\<rparr>, c_pc := Draining\<rparr>)"
  using assms by (simp add: lock_inv_def locks_agree_def)

lemma lock_inv_EndDrain:
  assumes "lock_inv s0 s" "c_pc s = Draining" "write_set (c_txn s) = []"
  shows "lock_inv s0 (s\<lparr>c_pc := Appending\<rparr>)"
  using assms by (simp add: lock_inv_def)

lemma lock_inv_AppendCommit:
  assumes "lock_inv s0 s" "c_pc s = Appending"
  shows "lock_inv s0 (s\<lparr>c_txn := (c_txn s)\<lparr>prev_lsn := lsn\<rparr>, c_log := lm',
                    commit_record := Some r, c_pc := AwaitFlush lsn\<rparr>)"
  using assms by (simp add: lock_inv_def locks_agree_def)

lemma lock_inv_Flushed:
  assumes "lock_inv s0 s" "c_pc s = AwaitFlush lsn" "lock_set_order (c_txn s) rids"
  shows "lock_inv s0 (s\<lparr>c_pc := Releasing (Some lsn) rids\<rparr>)"
  using assms by (simp add: lock_inv_def lock_set_order_def)

lemma lock_inv_Return:
  assumes "lock_inv s0 s" "c_pc s = Releasing l []"
  shows "lock_inv s0 (s\<lparr>c_pc := CommitReturned l\<rparr>)"
  using assms by (simp add: lock_inv_def)

lemma set_commit_deletes:
  "set (commit_deletes ws) = w_rid ` {item \<in> set ws. wtype item = W_DELETE}"
  by (auto simp: commit_deletes_def)

lemma drained_prefix:
  assumes ws: "ws = take (length ws) ws0" and ne: "ws \<noteq> []"
  shows "butlast ws = take (length (butlast ws)) ws0"
    "set (drop (length (butlast ws)) ws0) = insert (last ws) (set (drop (length ws) ws0))"
    "last ws \<in> set ws0"
proof -
  from ne obtain m where m: "length ws = Suc m" by (cases ws) auto
  have "length ws \<le> length ws0" using ws by (metis length_take min.cobounded1)
  with m have lt: "m < length ws0" by simp
  from ws m have w: "ws = take m ws0 @ [ws0 ! m]"
    using take_Suc_conv_app_nth [OF lt] by simp
  have l: "last ws = ws0 ! m" and b: "butlast ws = take m ws0"
    by (subst w, simp)+
  have len: "length (butlast ws) = m" using m by simp
  show "butlast ws = take (length (butlast ws)) ws0"
    unfolding len by (rule b)
  show "set (drop (length (butlast ws)) ws0) = insert (last ws) (set (drop (length ws) ws0))"
    unfolding len m l using Cons_nth_drop_Suc [OF lt] by (metis list.simps(15))
  show "last ws \<in> set ws0"
    unfolding l using lt by simp
qed


lemma locks_agree_write_set [simp]:
  "locks_agree (t\<lparr>write_set := ws\<rparr>) lm = locks_agree t lm"
  by (simp add: locks_agree_def)

lemma lock_inv_Drain:
  assumes inv: "lock_inv s0 s"
    and step: "commit_step LOG_BUFFER_SIZE True Drain s = Some s'"
  shows "lock_inv s0 s'"
proof -
  let ?ws = "write_set (c_txn s)"
  let ?orig = "write_set (c_txn s0)"
  let ?item = "last ?ws"
  from step have pc: "c_pc s = Draining" and ne: "?ws \<noteq> []"
    by (auto simp: commit_step_def split: if_splits)
  from inv have agree: "locks_agree (c_txn s) (c_locks s)"
    and tid: "txn_id (c_txn s) = txn_id (c_txn s0)"
    and st: "state (c_txn s) = COMMITTED \<or> state (c_txn s) = ABORTED"
    and ws: "?ws = take (length ?ws) ?orig"
    and del: "\<forall>rid\<in>set (commit_deletes (drop (length ?ws) ?orig)).
                rid \<notin> shared_lock_set (c_txn s) \<and> rid \<notin> exclusive_lock_set (c_txn s)"
    and frame: "\<forall>rid. rid \<notin> set (commit_deletes ?orig) \<longrightarrow>
                lock_table (c_locks s) rid = lock_table (c_locks s0) rid"
    using pc by (simp_all add: lock_inv_def)
  define bl where "bl = butlast ?ws"
  note d = drained_prefix [OF ws ne, folded bl_def]
  have dset: "set (commit_deletes (drop (length bl) ?orig))
      = (if wtype ?item = W_DELETE then {w_rid ?item} else {})
        \<union> set (commit_deletes (drop (length ?ws) ?orig))"
    unfolding set_commit_deletes d(2) by auto
  show ?thesis
  proof (cases "wtype ?item = W_DELETE")
    case False
    with step pc ne have s': "s' = s\<lparr>c_txn := (c_txn s)\<lparr>write_set := bl\<rparr>\<rparr>"
      by (auto simp: commit_step_def Let_def bl_def)
    show ?thesis
      unfolding lock_inv_def s'
      using agree tid st d(1) del frame pc False dset by simp
  next
    case True
    obtain ok t' lm' where un: "Unlock (c_txn s) (w_rid ?item) (c_locks s) = (ok, t', lm')"
      by (cases "Unlock (c_txn s) (w_rid ?item) (c_locks s)") auto
    with step pc ne True have s0': "s' = s\<lparr>c_txn := t'\<lparr>write_set := butlast (write_set t')\<rparr>,
                                           c_locks := lm'\<rparr>"
      by (auto simp: commit_step_def Let_def TableHeap_ApplyDelete_def)
    note u = Unlock_agree [OF agree st un]
    have s': "s' = s\<lparr>c_txn := t'\<lparr>write_set := bl\<rparr>, c_locks := lm'\<rparr>"
      unfolding s0' u(4) bl_def ..
    have in0: "w_rid ?item \<in> set (commit_deletes ?orig)"
      unfolding set_commit_deletes using d(3) True by auto
    have frame': "\<forall>rid. rid \<notin> set (commit_deletes ?orig) \<longrightarrow>
                lock_table lm' rid = lock_table (c_locks s0) rid"
      using frame u(10) in0 by metis
    have del': "\<forall>rid\<in>set (commit_deletes (drop (length bl) ?orig)).
                rid \<notin> shared_lock_set t' \<and> rid \<notin> exclusive_lock_set t'"
      unfolding dset using del u(6,7,8,9) True by auto
    show ?thesis
      unfolding lock_inv_def s'
      using u(1,2,3,4) tid d(1) del' frame' pc by simp
  qed
qed

lemma lock_inv_Release:
  assumes inv: "lock_inv s0 s"
    and step: "commit_step LOG_BUFFER_SIZE True Release s = Some s'"
  shows "lock_inv s0 s'"
proof -
  from step obtain l rid rids where pc: "c_pc s = Releasing l (rid # rids)"
    by (auto simp: commit_step_def split: commit_pc.splits list.splits)
  obtain ok t' lm' where un: "Unlock (c_txn s) rid (c_locks s) = (ok, t', lm')"
    by (cases "Unlock (c_txn s) rid (c_locks s)") auto
  with step pc have s': "s' = s\<lparr>c_txn := t', c_locks := lm', c_pc := Releasing l rids\<rparr>"
    by (simp add: commit_step_def)
  from inv have agree: "locks_agree (c_txn s) (c_locks s)"
    and tid: "txn_id (c_txn s) = txn_id (c_txn s0)"
    and st: "state (c_txn s) = COMMITTED \<or> state (c_txn s) = ABORTED"
    and ws: "write_set (c_txn s) = []"
    and del: "\<forall>rid\<in>set (commit_deletes (write_set (c_txn s0))).
                rid \<notin> shared_lock_set (c_txn s) \<and> rid \<notin> exclusive_lock_set (c_txn s)"
    and sub: "shared_lock_set (c_txn s) \<union> exclusive_lock_set (c_txn s) \<subseteq> set (rid # rids)"
    using pc by (simp_all add: lock_inv_def)
  note u = Unlock_agree [OF agree st un]
  have del': "\<forall>rid\<in>set (commit_deletes (write_set (c_txn s0))).
                rid \<notin> shared_lock_set t' \<and> rid \<notin> exclusive_lock_set t'"
    using del u(8,9) by auto
  have sub': "shared_lock_set t' \<union> exclusive_lock_set t' \<subseteq> set rids"
    using sub u(6,7,8,9) by auto
  show ?thesis
    unfolding lock_inv_def s'
    using u(1,2,3,4) tid ws del' sub' by simp
qed

subsection \<open>Force at commit\<close>

lemma lock_inv_step:
  assumes step: "commit_step LOG_BUFFER_SIZE True label s = Some s'" and inv: "lock_inv s0 s"
  shows "lock_inv s0 s'"
proof (cases label)
  case SetCommitted
  with step inv lock_inv_SetCommitted [of s0 s] show ?thesis
    by (auto simp: commit_step_def split: if_splits)
next
  case Drain
  with step inv show ?thesis by (auto intro: lock_inv_Drain)
next
  case (EndDrain rids)
  with step inv lock_inv_EndDrain [of s0 s] show ?thesis
    by (auto simp: commit_step_def split: if_splits)
next
  case AppendCommit
  with step inv show ?thesis
    by (auto simp: commit_step_def intro: lock_inv_AppendCommit
        split: if_splits append_result.splits)
next
  case WaitForLogFlush
  with step inv show ?thesis
    by (auto simp: commit_step_def split: if_splits commit_pc.splits)
next
  case (Flushed rids)
  with step inv show ?thesis
    by (auto simp: commit_step_def intro: lock_inv_Flushed split: if_splits commit_pc.splits)
next
  case Release
  with step inv show ?thesis by (auto intro: lock_inv_Release)
next
  case Return
  with step inv show ?thesis
    by (auto simp: commit_step_def intro: lock_inv_Return
        split: if_splits commit_pc.splits list.splits)
next
  case FlushSwap
  with step obtain x y where "s' = s\<lparr>flush_last_lsn := x, c_log := y\<rparr>"
    by (auto simp: commit_step_def split: option.splits)
  with inv lock_inv_cong [of s' s s0] show ?thesis by simp
next
  case FlushDone
  with step obtain x y where "s' = s\<lparr>flush_last_lsn := x, c_log := y\<rparr>"
    by (auto simp: commit_step_def split: option.splits)
  with inv lock_inv_cong [of s' s s0] show ?thesis by simp
next
  case (OtherAppend r0)
  with step obtain y where "s' = s\<lparr>c_log := y\<rparr>"
    by (auto simp: commit_step_def split: if_splits append_result.splits)
  with inv lock_inv_cong [of s' s s0] show ?thesis by simp
qed

lemma commit_reaches_inv:
  "commit_reaches LOG_BUFFER_SIZE True s0 s \<Longrightarrow>
     commit_start s0 \<and> log_inv s \<and> lock_inv s0 s"
  by (induction LOG_BUFFER_SIZE True s0 s rule: commit_reaches.induct)
     (auto intro: log_inv_step lock_inv_step dest: commit_start_inv)

lemma commit_run_reaches:
  "commit_reaches LOG_BUFFER_SIZE ENABLE_LOGGING s0 s \<Longrightarrow>
   commit_run LOG_BUFFER_SIZE ENABLE_LOGGING labels s = Some s' \<Longrightarrow>
   commit_reaches LOG_BUFFER_SIZE ENABLE_LOGGING s0 s'"
  by (induction labels arbitrary: s)
     (auto split: option.splits intro: commit_reaches.step)

lemma commit_durable_iff:
  "commit_durable s =
     (\<exists>lsn r. commit_lsn (c_pc s) = Some lsn \<and> commit_record s = Some r \<and> lr_lsn r = lsn
         \<and> log_record_type r = COMMIT \<and> sint lsn \<le> sint (persistent_lsn (c_log s)))"
  by (auto simp: commit_durable_def split: option.splits)

lemma past_flush_durable:
  "log_inv s \<Longrightarrow> past_flush (c_pc s) \<Longrightarrow> commit_durable s"
  unfolding commit_durable_iff log_inv_def by blast

text \<open>
  Claim C3, as the code has it.  With logging enabled, in every state the system
  reaches from a start state: when \<^verbatim>\<open>Commit\<close> has returned, the COMMIT record of the
  transaction has been appended and the persistent sequence number is greater than or
  equal to the sequence number given to that record, and the transaction holds no
  lock; a lock the transaction held at the start, on a row that is in no DELETE item
  of its write set, is released only when that record is durable; and the locks on
  the rows of the DELETE items are released once the write set is drained, before the
  COMMIT record is appended.
\<close>

theorem force_at_commit:
  assumes "commit_reaches LOG_BUFFER_SIZE True s0 s"
  shows "(\<forall>l. c_pc s = CommitReturned l \<longrightarrow> commit_durable s \<and> (\<forall>rid. \<not> holds_lock s rid))
       \<and> (\<forall>rid. holds_lock s0 rid \<and> \<not> holds_lock s rid
                 \<and> rid \<notin> set (commit_deletes (write_set (c_txn s0)))
               \<longrightarrow> commit_durable s)
       \<and> (past_drain (c_pc s) \<longrightarrow>
             (\<forall>rid\<in>set (commit_deletes (write_set (c_txn s0))). \<not> holds_lock s rid))"
proof -
  from commit_reaches_inv [OF assms]
  have start: "commit_start s0" and log: "log_inv s" and lock: "lock_inv s0 s" by simp_all
  from start have agree0: "locks_agree (c_txn s0) (c_locks s0)" by (simp add: commit_start_def)
  from lock have agree: "locks_agree (c_txn s) (c_locks s)"
    and tid: "txn_id (c_txn s) = txn_id (c_txn s0)"
    by (simp_all add: lock_inv_def)
  note h = holds_lock_agree [OF agree] and h0 = holds_lock_agree [OF agree0]
  have 1: "commit_durable s \<and> (\<forall>rid. \<not> holds_lock s rid)" if "c_pc s = CommitReturned l" for l
    using that lock past_flush_durable [OF log] by (simp add: h lock_inv_def)
  have 2: "commit_durable s"
    if r: "holds_lock s0 rid" "\<not> holds_lock s rid"
      "rid \<notin> set (commit_deletes (write_set (c_txn s0)))" for rid
  proof (rule ccontr)
    assume "\<not> commit_durable s"
    with past_flush_durable [OF log] have "\<not> past_flush (c_pc s)" by blast
    with lock r(3) have "lock_table (c_locks s) rid = lock_table (c_locks s0) rid"
      by (cases rid) (simp add: lock_inv_def)
    with locks_agreeD [OF agree, of rid] locks_agreeD [OF agree0, of rid] tid r(1,2)
    show False by (simp add: h h0)
  qed
  have 3: "\<forall>rid\<in>set (commit_deletes (write_set (c_txn s0))). \<not> holds_lock s rid"
    if "past_drain (c_pc s)"
    using that lock by (simp add: h lock_inv_def)
  from 1 2 3 show ?thesis by blast
qed

lemma sample_start: "commit_start sample_commit_start"
  by (auto simp: commit_start_def sample_commit_start_def locks_agree_def)

lemma sample_drain_run:
  "\<exists>s. commit_run 64 True sample_drain sample_commit_start = Some s
     \<and> c_pc s = Appending \<and> commit_record s = None
     \<and> exclusive_lock_set (c_txn s) = {(0, 1)} \<and> shared_lock_set (c_txn s) = {}
     \<and> lock_table (c_locks s) = [(0, 1) \<mapsto> \<lparr>lockType = EXCLUSIVE, granted_set = {0}\<rparr>]
     \<and> txn_id (c_txn s) = 0 \<and> persistent_lsn (c_log s) = - 1"
  by (simp add: sample_drain_def sample_commit_start_def commit_step_def
      TableHeap_ApplyDelete_def Unlock_def Let_def fun_upd_twist)

lemma sample_run:
  "\<exists>s. commit_run 64 True sample_schedule sample_commit_start = Some s
     \<and> c_pc s = CommitReturned (Some 0)"
  by (simp add: sample_schedule_def sample_drain_def sample_commit_start_def commit_step_def
     lock_set_order_def
     commit_deletes_def AppendLogRecord_def LogRecord_txn_def default_record_def Let_def
     memcpy_to_def header_bytes_def serialize_payload_def HEADER_SIZE_def SwapBuffer_def Unlock_def
     TableHeap_ApplyDelete_def)

lemma sample_locks:
  "holds_lock sample_commit_start (0, 0) \<and> holds_lock sample_commit_start (0, 1)
     \<and> commit_deletes (write_set (c_txn sample_commit_start)) = [(0, 0)]"
  by (simp add: holds_lock_def sample_commit_start_def commit_deletes_def)

theorem force_at_commit_witness:
  "\<exists>s. commit_run 64 True sample_schedule sample_commit_start = Some s
      \<and> commit_reaches 64 True sample_commit_start s
      \<and> c_pc s = CommitReturned (Some 0) \<and> past_drain (c_pc s)
      \<and> holds_lock sample_commit_start (0, 1)
      \<and> (0, 1) \<notin> set (commit_deletes (write_set (c_txn sample_commit_start)))
      \<and> (0, 0) \<in> set (commit_deletes (write_set (c_txn sample_commit_start)))
      \<and> commit_durable s \<and> \<not> holds_lock s (0, 1) \<and> \<not> holds_lock s (0, 0)"
proof -
  obtain s where s: "commit_run 64 True sample_schedule sample_commit_start = Some s"
    "c_pc s = CommitReturned (Some 0)"
    using sample_run by blast
  have "commit_reaches 64 True sample_commit_start sample_commit_start"
    using sample_start by (rule commit_reaches.initial)
  then have r: "commit_reaches 64 True sample_commit_start s"
    using s(1) by (rule commit_run_reaches)
  from force_at_commit [OF r] s(2)
  have "commit_durable s" "\<not> holds_lock s (0, 1)" "\<not> holds_lock s (0, 0)"
    by simp_all
  with s r sample_locks show ?thesis
    by (intro exI [of _ s]) simp
qed

text \<open>
  The sentence of claim C3 that the locks are released only after the wait fails for
  the row of a DELETE item.  The sample transaction holds the exclusive locks of the
  rows (0, 0) and (0, 1) and its write set has a DELETE item for (0, 0).  After the
  drain of the write set no COMMIT record has been appended and the persistent
  sequence number is still -1, yet the lock of (0, 0) is gone from the lock table and
  from the lock sets of the transaction; the lock of (0, 1) is still held.
\<close>

theorem delete_lock_released_before_commit_record:
  "holds_lock sample_commit_start (0, 0)
   \<and> (case commit_run 64 True sample_drain sample_commit_start of
         None \<Rightarrow> False
       | Some s \<Rightarrow> c_pc s = Appending \<and> commit_record s = None \<and> \<not> commit_durable s
           \<and> sint (persistent_lsn (c_log s)) = - 1
           \<and> lock_table (c_locks s) (0, 0) = None
           \<and> \<not> holds_lock s (0, 0) \<and> holds_lock s (0, 1))"
proof -
  obtain s where s: "commit_run 64 True sample_drain sample_commit_start = Some s"
    "c_pc s = Appending" "commit_record s = None"
    "exclusive_lock_set (c_txn s) = {(0, 1)}" "shared_lock_set (c_txn s) = {}"
    "lock_table (c_locks s) = [(0, 1) \<mapsto> \<lparr>lockType = EXCLUSIVE, granted_set = {0}\<rparr>]"
    "txn_id (c_txn s) = 0" "persistent_lsn (c_log s) = - 1"
    using sample_drain_run by blast
  from s sample_locks show ?thesis
    by (simp add: holds_lock_def commit_durable_def)
qed

section \<open>Properties of the LRU replacer\<close>

lemma LRU_Erase_absent: "value_map r v = None \<Longrightarrow> LRU_Erase v r = Inr (False, r)"
  by (simp add: LRU_Erase_def)

text \<open>
  A first insertion of a value leaves the map entry of the value at the node that
  holds it.
\<close>

lemma LRU_Insert_absent:
  "value_map r v = None \<Longrightarrow>
   LRU_Insert v r = Inr (r\<lparr>access_list := (next_node r, v) # access_list r,
                            value_map := (value_map r)(v \<mapsto> next_node r),
                            next_node := Suc (next_node r)\<rparr>)"
  by (simp add: LRU_Insert_def push_front_emplace_def)

text \<open>
  An insertion of a value that is present moves the value to a new node at the front,
  and the map entry of the value still names the erased node.
\<close>

lemma LRU_Insert_present:
  assumes "value_map r v = Some pos" and "pos \<in> fst ` set (access_list r)"
  shows "LRU_Insert v r =
           Inr (r\<lparr>access_list :=
                    (next_node r, v) # filter (\<lambda>node. fst node \<noteq> pos) (access_list r),
                  next_node := Suc (next_node r)\<rparr>)"
  using assms by (simp add: LRU_Insert_def push_front_emplace_def list_erase_def)

text \<open>
  Claim C9, at a concrete input.  After \<^verbatim>\<open>Insert(1); Insert(1)\<close> on an empty replacer
  the list holds the value 1 once, in node 1, while the map still sends 1 to node 0,
  which was erased; \<^verbatim>\<open>Erase(1)\<close> then erases through that stale iterator.
\<close>

theorem lru_reinsert_then_erase:
  "(case LRU_Inserts [1 :: int, 1] LRUReplacer_new of
      Inl e \<Rightarrow> False
    | Inr r \<Rightarrow> access_list r = [(1, 1)] \<and> value_map r 1 = Some 0
               \<and> LRU_Erase 1 r = Inl InvalidIterator)"
  by (simp add: LRU_Insert_def LRUReplacer_new_def push_front_emplace_def list_erase_def
      LRU_Erase_def)


section \<open>Properties of the B+ tree\<close>

subsection \<open>Splitting a leaf\<close>

lemma Leaf_Insert_cases:
  assumes "Leaf_Insert key val p = Some (n, p')"
  shows "(n = length (leaf_array p) \<and> p' = p)
       \<or> (n = length (leaf_array p) + 1
          \<and> p' = p\<lparr>leaf_array := take (KeyIndex key p) (leaf_array p) @ [(key, val)]
                                     @ drop (KeyIndex key p) (leaf_array p)\<rparr>)"
  using assms by (auto simp: Leaf_Insert_def Let_def split: if_splits)

lemma Leaf_Insert_fields:
  assumes "Leaf_Insert key val p = Some (n, p')"
  shows "max_size p' = max_size p" "parent_page_id p' = parent_page_id p"
    "page_id p' = page_id p" "next_page_id p' = next_page_id p" "page_type p' = page_type p"
    "internal_array p' = internal_array p" "n = length (leaf_array p')"
    "length (leaf_array p) \<le> max_size p"
  using assms by (auto simp: Leaf_Insert_def Let_def split: if_splits)

lemma GetMinSize_le: "GetMinSize p \<le> max_size p + 1"
  by (simp add: GetMinSize_def)

lemma Split_leaf_result:
  assumes leaf: "pages tree leaf_id = Some leaf'"
    and over: "length (leaf_array leaf') = max_size leaf' + 1"
    and fresh: "free_page_ids tree = new_id # rest" "new_id \<noteq> leaf_id"
  shows "Split_leaf leaf_id tree =
           Some (new_id,
             put_page leaf_id
               (leaf'\<lparr>leaf_array := take (max_size leaf' + 1 - GetMinSize leaf') (leaf_array leaf'),
                      next_page_id := new_id\<rparr>)
               (put_page new_id
                  ((Leaf_Init new_id (parent_page_id leaf') (leaf_max_size tree))
                     \<lparr>leaf_array := drop (max_size leaf' + 1 - GetMinSize leaf') (leaf_array leaf'),
                      next_page_id := next_page_id leaf'\<rparr>)
                  (tree\<lparr>free_page_ids := rest\<rparr>)))"
proof -
  have "min (length (leaf_array leaf') - (max_size leaf' + 1 - GetMinSize leaf')) (GetMinSize leaf')
        = GetMinSize leaf'"
    using over GetMinSize_le [of leaf'] by simp
  then have "take (GetMinSize leaf') (drop (max_size leaf' + 1 - GetMinSize leaf') (leaf_array leaf'))
        = drop (max_size leaf' + 1 - GetMinSize leaf') (leaf_array leaf')"
    using over GetMinSize_le [of leaf'] by simp
  then show ?thesis
    using assms
    by (simp add: Split_leaf_def NewPage_def Leaf_MoveHalfTo_def Leaf_Init_def Let_def put_page_def)
qed


lemma InsertIntoParent_new_root:
  assumes old: "pages tree old_id = Some old_node" and new: "pages tree new_id = Some new_node"
    and root: "parent_page_id old_node = INVALID_PAGE_ID"
    and fresh: "free_page_ids tree = root_id # rest" "root_id \<noteq> old_id" "root_id \<noteq> new_id"
    and ne: "old_id \<noteq> new_id"
  shows "InsertIntoParent (Suc fuel) old_id key new_id tree =
           Some (put_page new_id (new_node\<lparr>parent_page_id := root_id\<rparr>)
                  (put_page old_id (old_node\<lparr>parent_page_id := root_id\<rparr>)
                     (UpdateRootPageId False
                        ((put_page root_id
                            ((Internal_Init root_id INVALID_PAGE_ID (internal_max_size tree))
                               \<lparr>internal_array := [(blank_key tree, page_id old_node),
                                                    (key, page_id new_node)]\<rparr>)
                            (tree\<lparr>free_page_ids := rest\<rparr>))\<lparr>root_page_id := root_id\<rparr>))))"
  using assms
  by (simp add: NewPage_def PopulateNewRoot_def Internal_Init_def IsRootPage_def put_page_def
      UpdateRootPageId_def split: option.splits)

lemma InsertNodeAfter_result:
  assumes "ValueIndex old_value p = int i"
  shows "InsertNodeAfter old_value key new_value p =
           Some (Suc (length (internal_array p)),
                 p\<lparr>internal_array := take (Suc i) (internal_array p) @ [(key, new_value)]
                                         @ drop (Suc i) (internal_array p)\<rparr>)"
  using assms by (simp add: InsertNodeAfter_def Let_def)

lemma InsertIntoParent_room:
  assumes old: "pages tree old_id = Some old_node" and new: "pages tree new_id = Some new_node"
    and par: "parent_page_id old_node \<noteq> INVALID_PAGE_ID"
      "pages tree (parent_page_id old_node) = Some parent"
    and idx: "ValueIndex (page_id old_node) parent = int i"
    and room: "length (internal_array parent) < max_size parent"
  shows "InsertIntoParent (Suc fuel) old_id key new_id tree =
           Some (put_page (parent_page_id old_node)
                   (parent\<lparr>internal_array :=
                        take (Suc i) (internal_array parent) @ [(key, page_id new_node)]
                        @ drop (Suc i) (internal_array parent)\<rparr>) tree)"
  using assms
  by (simp add: FetchPage_tree_def InsertNodeAfter_result)

text \<open>
  Claim C6. When \<^const>\<open>Leaf_Insert\<close> leaves a leaf page with more than
  \<open>max_size\<close> entries (the size returned is \<open>max_size + 1\<close>),
  \<^const>\<open>InsertIntoLeaf\<close> splits it: \<^const>\<open>Split_leaf\<close> takes a new page,
  whose id is the head of the free list, and moves the last
  \<^const>\<open>GetMinSize\<close> entries, the upper half, to it, so that the entries of the
  old page followed by those of the new page are the entries before the split.
  The new page is a leaf with the parent of the old one, it is linked behind the
  old page in the leaf chain, and its first key is handed to
  \<^const>\<open>InsertIntoParent\<close> together with its page id.  When the parent has room
  the pair is stored right behind the entry of the old page, and when the old
  page was the root a new root with exactly these two children is created.
\<close>

theorem leaf_split_on_overflow:
  assumes find: "FindLeafPage fuel key tree = Some leaf_id"
    and leaf: "pages tree leaf_id = Some leaf"
    and ins: "Leaf_Insert key val leaf = Some (new_size, leaf')"
    and over: "new_size = max_size leaf + 1"
    and pos: "0 < max_size leaf"
    and fresh: "free_page_ids tree = new_id # rest" "new_id \<notin> dom (pages tree)"
  shows "\<exists>tree2 left right.
           Split_leaf leaf_id (put_page leaf_id leaf' tree) = Some (new_id, tree2)
         \<and> pages tree2 leaf_id = Some left \<and> pages tree2 new_id = Some right
         \<and> (\<forall>pid. pid \<noteq> leaf_id \<and> pid \<noteq> new_id \<longrightarrow> pages tree2 pid = pages tree pid)
         \<and> leaf_array left @ leaf_array right = leaf_array leaf'
         \<and> length (leaf_array right) = GetMinSize leaf
         \<and> page_type right = LEAF_PAGE \<and> page_id right = new_id
         \<and> parent_page_id right = parent_page_id leaf
         \<and> next_page_id right = next_page_id leaf
         \<and> next_page_id left = new_id
         \<and> InsertIntoLeaf fuel key val tree
             = map_option (Pair True)
                 (InsertIntoParent fuel leaf_id (fst (hd (leaf_array right))) new_id tree2)
         \<and> (\<forall>parent i.
               parent_page_id leaf \<noteq> INVALID_PAGE_ID
               \<and> pages tree (parent_page_id leaf) = Some parent
               \<and> parent_page_id leaf \<noteq> leaf_id
               \<and> ValueIndex (page_id leaf) parent = int i
               \<and> length (internal_array parent) < max_size parent
               \<longrightarrow>
               InsertIntoLeaf fuel key val tree
                 = Some (True,
                     put_page (parent_page_id leaf)
                       (parent\<lparr>internal_array :=
                           take (Suc i) (internal_array parent)
                           @ [(fst (hd (leaf_array right)), new_id)]
                           @ drop (Suc i) (internal_array parent)\<rparr>) tree2))
         \<and> (\<forall>root_id rest'.
               parent_page_id leaf = INVALID_PAGE_ID
               \<and> rest = root_id # rest' \<and> root_id \<noteq> leaf_id \<and> root_id \<noteq> new_id
               \<longrightarrow>
               (\<exists>tree3. InsertIntoLeaf fuel key val tree = Some (True, tree3)
                  \<and> root_page_id tree3 = root_id
                  \<and> map_option internal_array (pages tree3 root_id)
                      = Some [(blank_key tree, page_id leaf), (fst (hd (leaf_array right)), new_id)]
                  \<and> map_option parent_page_id (pages tree3 leaf_id) = Some root_id
                  \<and> map_option parent_page_id (pages tree3 new_id) = Some root_id
                  \<and> map_option leaf_array (pages tree3 leaf_id) = Some (leaf_array left)
                  \<and> map_option leaf_array (pages tree3 new_id) = Some (leaf_array right)))"
proof -
  let ?k = "max_size leaf + 1 - GetMinSize leaf"
  let ?tree1 = "put_page leaf_id leaf' tree"
  let ?left = "leaf'\<lparr>leaf_array := take ?k (leaf_array leaf'), next_page_id := new_id\<rparr>"
  let ?right = "(Leaf_Init new_id (parent_page_id leaf) (leaf_max_size tree))
                  \<lparr>leaf_array := drop ?k (leaf_array leaf'), next_page_id := next_page_id leaf\<rparr>"
  let ?tree2 = "put_page leaf_id ?left (put_page new_id ?right (?tree1\<lparr>free_page_ids := rest\<rparr>))"
  note f = Leaf_Insert_fields [OF ins]
  have ne: "new_id \<noteq> leaf_id" using fresh(2) leaf by auto
  have len: "length (leaf_array leaf') = max_size leaf' + 1"
    using f over by simp
  have min: "GetMinSize leaf' = GetMinSize leaf" "0 < GetMinSize leaf" "GetMinSize leaf \<le> max_size leaf + 1"
    using f pos by (simp_all add: GetMinSize_def)
  have split: "Split_leaf leaf_id ?tree1 = Some (new_id, ?tree2)"
    using Split_leaf_result [of ?tree1 leaf_id leaf' new_id rest] len fresh(1) ne f min
    by (simp add: put_page_def)
  have r0: "leaf_array ?right \<noteq> []"
    using len min f by simp
  have key0: "Leaf_KeyAt 0 ?right = Some (fst (hd (leaf_array ?right)))"
    using r0 by (simp add: Leaf_KeyAt_def hd_conv_nth)
  let ?sep = "fst (hd (leaf_array ?right))"
  have call: "InsertIntoLeaf fuel key val tree
        = map_option (Pair True) (InsertIntoParent fuel leaf_id ?sep new_id ?tree2)"
    using find leaf ins over f split key0 ne
    by (simp add: InsertIntoLeaf_def put_page_def map_option_case split: option.splits)
  obtain n where fuel: "fuel = Suc n"
    using find by (cases fuel) (simp_all add: FindLeafPage_def split: if_splits)
  have lenr: "length (leaf_array ?right) = GetMinSize leaf"
    using len min f by simp
  have room: "InsertIntoLeaf fuel key val tree
                 = Some (True,
                     put_page (parent_page_id leaf)
                       (parent\<lparr>internal_array :=
                           take (Suc i) (internal_array parent) @ [(?sep, new_id)]
                           @ drop (Suc i) (internal_array parent)\<rparr>) ?tree2)"
    if "parent_page_id leaf \<noteq> INVALID_PAGE_ID" "pages tree (parent_page_id leaf) = Some parent"
      "parent_page_id leaf \<noteq> leaf_id" "ValueIndex (page_id leaf) parent = int i"
      "length (internal_array parent) < max_size parent" for parent i
  proof -
    have pn: "parent_page_id leaf \<noteq> new_id" using that(2) fresh(2) by auto
    have "InsertIntoParent (Suc n) leaf_id ?sep new_id ?tree2
          = Some (put_page (parent_page_id ?left)
                   (parent\<lparr>internal_array :=
                        take (Suc i) (internal_array parent) @ [(?sep, page_id ?right)]
                        @ drop (Suc i) (internal_array parent)\<rparr>) ?tree2)"
      using that pn ne f
      by (intro InsertIntoParent_room) (simp_all add: put_page_def)
    then show ?thesis
      using call fuel f by (simp add: Leaf_Init_def)
  qed
  have newroot: "\<exists>tree3. InsertIntoLeaf fuel key val tree = Some (True, tree3)
                  \<and> root_page_id tree3 = root_id
                  \<and> map_option internal_array (pages tree3 root_id)
                      = Some [(blank_key tree, page_id leaf), (?sep, new_id)]
                  \<and> map_option parent_page_id (pages tree3 leaf_id) = Some root_id
                  \<and> map_option parent_page_id (pages tree3 new_id) = Some root_id
                  \<and> map_option leaf_array (pages tree3 leaf_id) = Some (leaf_array ?left)
                  \<and> map_option leaf_array (pages tree3 new_id) = Some (leaf_array ?right)"
    if "parent_page_id leaf = INVALID_PAGE_ID" "rest = root_id # rest'" "root_id \<noteq> leaf_id"
      "root_id \<noteq> new_id" for root_id rest'
  proof -
    have "InsertIntoParent (Suc n) leaf_id ?sep new_id ?tree2 =
           Some (put_page new_id (?right\<lparr>parent_page_id := root_id\<rparr>)
                  (put_page leaf_id (?left\<lparr>parent_page_id := root_id\<rparr>)
                     (UpdateRootPageId False
                        ((put_page root_id
                            ((Internal_Init root_id INVALID_PAGE_ID (internal_max_size ?tree2))
                               \<lparr>internal_array := [(blank_key ?tree2, page_id ?left),
                                                    (?sep, page_id ?right)]\<rparr>)
                            (?tree2\<lparr>free_page_ids := rest'\<rparr>))\<lparr>root_page_id := root_id\<rparr>))))"
      using that ne f
      by (intro InsertIntoParent_new_root) (simp_all add: put_page_def)
    then show ?thesis
      using call fuel f that ne
      by (simp add: put_page_def UpdateRootPageId_def Leaf_Init_def split: option.splits)
  qed
  show ?thesis
    using split ne lenr call room newroot
    by (intro exI [of _ ?tree2] exI [of _ ?left] exI [of _ ?right])
       (simp add: put_page_def Leaf_Init_def)
qed


lemma sample_leaf_insert:
  "Leaf_Insert 4 40 sample_leaf
   = Some (4, sample_leaf\<lparr>leaf_array := [(1, 10), (2, 20), (3, 30), (4, 40)]\<rparr>)"
  by code_simp

theorem leaf_split_on_overflow_witness:
  "\<exists>tree3. InsertIntoLeaf (Suc 0) 4 40 sample_leaf_tree = Some (True, tree3)
      \<and> root_page_id tree3 = 3
      \<and> map_option internal_array (pages tree3 3) = Some [(0, 1), (3, 2)]
      \<and> map_option leaf_array (pages tree3 1) = Some [(1, 10), (2, 20)]
      \<and> map_option leaf_array (pages tree3 2) = Some [(3, 30), (4, 40)]
      \<and> map_option parent_page_id (pages tree3 1) = Some 3"
proof -
  have 1: "FindLeafPage (Suc 0) 4 sample_leaf_tree = Some 1"
    by (simp add: FindLeafPage_def IsEmpty_def sample_leaf_tree_def INVALID_PAGE_ID_def
        FetchPage_tree_def IsLeafPage_def sample_leaf_def)
  have 2: "pages sample_leaf_tree 1 = Some sample_leaf"
    by (simp add: sample_leaf_tree_def)
  have 4: "(4 :: nat) = max_size sample_leaf + 1" "0 < max_size sample_leaf"
    by (simp_all add: sample_leaf_def)
  have 5: "free_page_ids sample_leaf_tree = 2 # [3]" "2 \<notin> dom (pages sample_leaf_tree)"
    by (simp_all add: sample_leaf_tree_def)
  show ?thesis
    using leaf_split_on_overflow [OF 1 2 sample_leaf_insert 4 5]
    apply (elim exE conjE)
    subgoal premises p for tree2 left right
    proof -
      have "length (leaf_array right) = 2"
        using p(6) by (simp add: GetMinSize_def sample_leaf_def)
      with p(5) have lr: "leaf_array left = [(1, 10), (2, 20)]"
          "leaf_array right = [(3, 30), (4, 40)]"
        by (auto simp: append_eq_Cons_conv Cons_eq_append_conv)
      have pre: "parent_page_id sample_leaf = INVALID_PAGE_ID
                   \<and> [3 :: page_id_t] = 3 # [] \<and> (3 :: page_id_t) \<noteq> 1 \<and> (3 :: page_id_t) \<noteq> 2"
        by (simp add: sample_leaf_def)
      from p(14) [rule_format, of 3 "[]", OF pre] show ?thesis
        apply (elim exE conjE)
        subgoal premises q for tree3
          using q lr
          by (intro exI [of _ tree3]) (simp add: sample_leaf_tree_def sample_leaf_def)
        done
    qed
    done
qed

subsection \<open>Coalescing and redistributing\<close>

text \<open>
  Claim C1: a page under its minimum is coalesced with its sibling exactly when the
  two sizes add up to at most \<open>max_size\<close>, as also the comment before
  \<^verbatim>\<open>CoalesceOrRedistribute\<close> says.  \<^const>\<open>CoalesceOrRedistribute\<close> tests the size
  of the sibling against \<^const>\<open>GetMinSize\<close> instead.  With leaf pages of at most four
  entries the keys 1 to 5 give the leaf pages \<open>[1, 2, 3]\<close> and \<open>[4, 5]\<close>.  Removing 5
  leaves the second page with one entry, below the minimum of two, beside a sibling
  of three entries: \<open>3 + 1 \<le> 4\<close>, yet the pages are not merged; the last entry of
  the sibling moves over.
\<close>

theorem redistribute_although_sum_fits:
  "(case insert_all 3 [1, 2, 3, 4, 5 :: int] (empty_tree 4 4 0 [1, 2, 3, 4]) of
      None \<Rightarrow> False
    | Some tree \<Rightarrow>
        root_page_id tree = 3
      \<and> map_option internal_array (pages tree 3) = Some [(0, 1), (4, 2)]
      \<and> map_option leaf_array (pages tree 1) = Some [(1, 1), (2, 2), (3, 3)]
      \<and> map_option leaf_array (pages tree 2) = Some [(4, 4), (5, 5)]
      \<and> map_option max_size (pages tree 2) = Some 4
      \<and> map_option GetMinSize (pages tree 2) = Some 2
      \<and> (case Remove 3 5 tree of
            None \<Rightarrow> False
          | Some tree' \<Rightarrow>
              map_option internal_array (pages tree' 3) = Some [(0, 1), (3, 2)]
            \<and> map_option leaf_array (pages tree' 1) = Some [(1, 1), (2, 2)]
            \<and> map_option leaf_array (pages tree' 2) = Some [(3, 3), (4, 4)]))"
  by code_simp


section \<open>A key is found after its insertion\<close>

subsection \<open>Binary search in a page\<close>

lemma comparator_simps:
  "(comparator a b < 0) = (a < b)" "(comparator a b > 0) = (b < a)"
  "(comparator a b = 0) = (a = b)"
  by (auto simp: comparator_def)

lemma Lookup_loop_result:
  "start \<le> j \<Longrightarrow> j \<le> end' \<Longrightarrow> end' \<le> length arr
   \<Longrightarrow> \<forall>m. start \<le> m \<and> m < j \<longrightarrow> fst (arr ! m) \<le> k
   \<Longrightarrow> \<forall>m. j \<le> m \<and> m < end' \<longrightarrow> k < fst (arr ! m)
   \<Longrightarrow> Lookup_loop k arr start end' = j"
proof (induction k arr start end' rule: Lookup_loop.induct)
  case (1 key array start end')
  show ?case
  proof (cases "start < end'")
    case False
    with "1.prems" show ?thesis by (simp add: Lookup_loop.simps [of key array start end'])
  next
    case True
    let ?mid = "start + (end' - start) div 2"
    have mid: "start \<le> ?mid" "?mid < end'" using True by auto
    show ?thesis
    proof (cases "key < fst (array ! ?mid)")
      case lt: True
      then have "j \<le> ?mid"
        using "1.prems"(4) mid by (metis not_le_imp_less leD)
      with "1.IH"(1) [OF True refl] lt "1.prems" mid True show ?thesis
        by (simp add: Lookup_loop.simps [of key array start end'] comparator_simps Let_def)
    next
      case ge: False
      then have "?mid < j"
        using "1.prems"(5) mid by (metis not_le_imp_less)
      with "1.IH"(2) [OF True refl] ge "1.prems" mid True show ?thesis
        by (simp add: Lookup_loop.simps [of key array start end'] comparator_simps Let_def)
    qed
  qed
qed

lemma KeyIndex_loop_result:
  "start \<le> j \<Longrightarrow> j \<le> end' \<Longrightarrow> end' \<le> length arr
   \<Longrightarrow> \<forall>m. start \<le> m \<and> m < j \<longrightarrow> fst (arr ! m) < k
   \<Longrightarrow> \<forall>m. j \<le> m \<and> m < end' \<longrightarrow> k \<le> fst (arr ! m)
   \<Longrightarrow> KeyIndex_loop k arr start end' = j"
proof (induction k arr start end' rule: KeyIndex_loop.induct)
  case (1 key array start end')
  show ?case
  proof (cases "start < end'")
    case False
    with "1.prems" show ?thesis by (simp add: KeyIndex_loop.simps [of key array start end'])
  next
    case True
    let ?mid = "start + (end' - start) div 2"
    have mid: "start \<le> ?mid" "?mid < end'" using True by auto
    show ?thesis
    proof (cases "fst (array ! ?mid) < key")
      case lt: True
      then have "?mid < j"
        using "1.prems"(5) mid by (metis not_le_imp_less leD)
      with "1.IH"(1) [OF True refl] lt "1.prems" mid True show ?thesis
        by (simp add: KeyIndex_loop.simps [of key array start end'] comparator_simps Let_def)
    next
      case ge: False
      then have "j \<le> ?mid"
        using "1.prems"(4) mid by (metis not_le_imp_less)
      with "1.IH"(2) [OF True refl] ge "1.prems" mid True show ?thesis
        by (simp add: KeyIndex_loop.simps [of key array start end'] comparator_simps Let_def)
    qed
  qed
qed


lemma Internal_Lookup_slot:
  assumes "1 < length (internal_array p)" "splits_at k (slot_keys p) c"
  shows "Internal_Lookup k p = Some (snd (internal_array p ! c))"
proof -
  let ?arr = "internal_array p"
  have len: "length (slot_keys p) = length ?arr - 1" by (simp add: slot_keys_def)
  have key: "fst (?arr ! m) = slot_keys p ! (m - 1)" if "1 \<le> m" "m < length ?arr" for m
    using that by (simp add: slot_keys_def nth_tl)
  from assms(2) have c: "c \<le> length (slot_keys p)"
    and lo: "\<forall>x\<in>set (take c (slot_keys p)). x \<le> k"
    and hi: "\<forall>x\<in>set (drop c (slot_keys p)). k < x"
    by (simp_all add: splits_at_def list_all_iff)
  have 1: "\<forall>m. 1 \<le> m \<and> m < Suc c \<longrightarrow> fst (?arr ! m) \<le> k"
  proof (intro allI impI)
    fix m assume m: "1 \<le> m \<and> m < Suc c"
    then have "slot_keys p ! (m - 1) \<in> set (take c (slot_keys p))"
      using c by (auto simp: in_set_conv_nth intro!: exI [of _ "m - 1"])
    with lo key [of m] m c len show "fst (?arr ! m) \<le> k" by auto
  qed
  have 2: "\<forall>m. Suc c \<le> m \<and> m < length ?arr \<longrightarrow> k < fst (?arr ! m)"
  proof (intro allI impI)
    fix m assume m: "Suc c \<le> m \<and> m < length ?arr"
    then have "slot_keys p ! (m - 1) \<in> set (drop c (slot_keys p))"
      using c len by (auto simp: in_set_conv_nth intro!: exI [of _ "m - 1 - c"])
    with hi key [of m] m show "k < fst (?arr ! m)" by auto
  qed
  have "Lookup_loop k ?arr 1 (length ?arr) = Suc c"
    using c len assms(1) 1 2 by (intro Lookup_loop_result) auto
  with assms(1) show ?thesis by (simp add: Internal_Lookup_def)
qed

lemma sorted_splits_at:
  "sorted_wrt (<) ks \<Longrightarrow> splits_at k ks (length (filter (\<lambda>x. x \<le> k) ks))"
proof (induction ks)
  case Nil
  show ?case by (simp add: splits_at_def)
next
  case (Cons x xs)
  show ?case
  proof (cases "x \<le> k")
    case True
    with Cons show ?thesis by (simp add: splits_at_def)
  next
    case False
    with Cons.prems have "\<forall>y\<in>set xs. k < y" by auto
    then have "filter (\<lambda>x. x \<le> k) xs = []" by (auto simp: filter_empty_conv)
    with False \<open>\<forall>y\<in>set xs. k < y\<close> show ?thesis
      by (simp add: splits_at_def list_all_iff)
  qed
qed

lemma splits_at_insert:
  assumes "splits_at k ks i"
  shows "splits_at k (take i ks @ [key] @ drop i ks) (if key \<le> k then Suc i else i)"
  using assms by (auto simp: splits_at_def min_def)

lemma splits_at_take:
  assumes "splits_at k ks j" "h < length ks" "k < ks ! h"
  shows "j \<le> h" "splits_at k (take h ks) j"
proof -
  show j: "j \<le> h"
  proof (rule ccontr)
    assume "\<not> j \<le> h"
    then have "ks ! h \<in> set (take j ks)"
      using assms(2) by (auto simp: in_set_conv_nth intro!: exI [of _ h])
    with assms(1,3) show False by (auto simp: splits_at_def list_all_iff)
  qed
  have "set (drop j (take h ks)) \<subseteq> set (drop j ks)"
    by (metis drop_take set_take_subset)
  with assms(1,2) j show "splits_at k (take h ks) j"
    by (auto simp: splits_at_def list_all_iff min_def)
qed

lemma splits_at_drop:
  assumes "splits_at k ks j" "h < length ks" "ks ! h \<le> k"
  shows "Suc h \<le> j" "splits_at k (drop (Suc h) ks) (j - Suc h)"
proof -
  show j: "Suc h \<le> j"
  proof (rule ccontr)
    assume "\<not> Suc h \<le> j"
    then have "ks ! h \<in> set (drop j ks)"
      using assms(2) by (auto simp: in_set_conv_nth intro!: exI [of _ "h - j"])
    with assms(1,3) show False by (auto simp: splits_at_def list_all_iff)
  qed
  have "set (take (j - Suc h) (drop (Suc h) ks)) \<subseteq> set (take j ks)"
    by (metis drop_take set_drop_subset)
  with assms(1,2) j show "splits_at k (drop (Suc h) ks) (j - Suc h)"
    by (auto simp: splits_at_def list_all_iff)
qed

subsection \<open>Entries of a leaf page\<close>

lemma KeyIndex_result:
  assumes "c \<le> length (leaf_array p)"
    and "\<forall>x\<in>set (take c (map fst (leaf_array p))). x < k"
    and "\<forall>x\<in>set (drop c (map fst (leaf_array p))). k \<le> x"
  shows "KeyIndex k p = c"
proof -
  let ?arr = "leaf_array p"
  have 1: "\<forall>m. 0 \<le> m \<and> m < c \<longrightarrow> fst (?arr ! m) < k"
  proof (intro allI impI)
    fix m assume "0 \<le> m \<and> m < c"
    then have "fst (?arr ! m) \<in> set (take c (map fst ?arr))"
      using assms(1) by (auto simp: in_set_conv_nth intro!: exI [of _ m])
    with assms(2) show "fst (?arr ! m) < k" by auto
  qed
  have 2: "\<forall>m. c \<le> m \<and> m < length ?arr \<longrightarrow> k \<le> fst (?arr ! m)"
  proof (intro allI impI)
    fix m assume "c \<le> m \<and> m < length ?arr"
    then have "fst (?arr ! m) \<in> set (drop c (map fst ?arr))"
      by (auto simp: in_set_conv_nth intro!: exI [of _ "m - c"])
    with assms(3) show "k \<le> fst (?arr ! m)" by auto
  qed
  show ?thesis
    unfolding KeyIndex_def using assms(1) 1 2 by (intro KeyIndex_loop_result) auto
qed

lemma sorted_less_split:
  "sorted_wrt (<) (ks :: 'k::linorder list) \<Longrightarrow>
     list_all (\<lambda>x. x < k) (take (length (filter (\<lambda>x. x < k) ks)) ks)
   \<and> list_all (\<lambda>x. k \<le> x) (drop (length (filter (\<lambda>x. x < k) ks)) ks)"
proof (induction ks)
  case Nil
  show ?case by simp
next
  case (Cons x xs)
  then have IH: "list_all (\<lambda>x. x < k) (take (length (filter (\<lambda>x. x < k) xs)) xs)
   \<and> list_all (\<lambda>x. k \<le> x) (drop (length (filter (\<lambda>x. x < k) xs)) xs)" by simp
  show ?case
  proof (cases "x < k")
    case True
    with IH show ?thesis by simp
  next
    case False
    with Cons.prems have a: "\<forall>y\<in>set xs. k \<le> y" by fastforce
    then have "filter (\<lambda>x. x < k) xs = []" by (auto simp: filter_empty_conv)
    with False a show ?thesis by (simp add: list_all_iff)
  qed
qed

lemma sorted_gt_tail:
  assumes "sorted_wrt (<) (ks :: 'k::linorder list)" "c < length ks" "k < ks ! c"
  shows "list_all (\<lambda>x. k < x) (drop c ks)"
proof -
  have "k < x" if "x \<in> set (drop c ks)" for x
  proof -
    from that obtain m where m: "m < length ks - c" "x = ks ! (c + m)"
      by (auto simp: in_set_conv_nth)
    show ?thesis
    proof (cases m)
      case 0
      with m assms(3) show ?thesis by simp
    next
      case (Suc m')
      have "ks ! c < ks ! (c + m)"
        using sorted_wrt_nth_less [OF assms(1), of c "c + m"] m(1) Suc by simp
      with assms(3) m show ?thesis by simp
    qed
  qed
  then show ?thesis by (simp add: list_all_iff)
qed

lemma Leaf_Insert_inserted:
  assumes "Leaf_Insert key val p = Some (n, p')" "n \<noteq> length (leaf_array p)"
  shows "\<not> (KeyIndex key p < length (leaf_array p)
            \<and> key = fst (leaf_array p ! KeyIndex key p))"
    "p' = p\<lparr>leaf_array := take (KeyIndex key p) (leaf_array p) @ [(key, val)]
                                     @ drop (KeyIndex key p) (leaf_array p)\<rparr>"
    "n = length (leaf_array p')"
  using assms by (auto simp: Leaf_Insert_def Let_def comparator_simps split: if_splits)

lemma nth_in_drop:
  "c < length (ks :: 'a list) \<Longrightarrow> ks ! c \<in> set (drop c ks)"
  by (simp add: Cons_nth_drop_Suc [symmetric])

lemma insert_at_facts:
  fixes arr :: "('k \<times> 'v) list"
  assumes "c \<le> length arr"
  shows "take c (map fst (take c arr @ (k, v) # drop c arr)) = take c (map fst arr)"
    "drop (Suc c) (map fst (take c arr @ (k, v) # drop c arr)) = drop c (map fst arr)"
    "(take c arr @ (k, v) # drop c arr) ! c = (k, v)"
    "c < length (take c arr @ (k, v) # drop c arr)"
  using assms by (simp_all add: take_map drop_map nth_append)

lemma Leaf_Insert_new:
  assumes ins: "Leaf_Insert k v p = Some (n, p')"
    and new: "n \<noteq> length (leaf_array p)"
    and sorted: "sorted_wrt (<) (map fst (leaf_array p))"
  shows "holds_entry k v (leaf_array p')" "n = length (leaf_array p) + 1"
    "length (leaf_array p') = n" "max_size p' = max_size p" "page_id p' = page_id p"
    "parent_page_id p' = parent_page_id p" "page_type p' = page_type p"
    "next_page_id p' = next_page_id p"
proof -
  define arr where "arr = leaf_array p"
  define ks where "ks = map fst arr"
  define c where "c = length (filter (\<lambda>x. x < k) ks)"
  have sorted': "sorted_wrt (<) ks" using sorted by (simp add: ks_def arr_def)
  note s = sorted_less_split [OF sorted', of k, unfolded list_all_iff, folded c_def]
  have c: "c \<le> length arr" "c \<le> length ks"
    unfolding c_def ks_def using length_filter_le [of _ "map fst arr"] by simp_all
  have idx: "KeyIndex k p = c"
    using KeyIndex_result [of c p k] c(1) s by (simp add: ks_def arr_def)
  note i = Leaf_Insert_inserted [OF ins new, unfolded idx, folded arr_def]
  have gt: "\<forall>x\<in>set (drop c ks). k < x"
  proof (cases "c < length ks")
    case False
    then show ?thesis by simp
  next
    case True
    from nth_in_drop [OF True] s have "k \<le> ks ! c" by blast
    moreover have "ks ! c = fst (arr ! c)" using True by (simp add: ks_def)
    ultimately have "k < ks ! c" using i(1) True by (auto simp: ks_def)
    with sorted_gt_tail [OF sorted' True] show ?thesis
      by (simp add: list_all_iff)
  qed
  have arr': "leaf_array p' = take c arr @ (k, v) # drop c arr" using i(2) by simp
  note f = insert_at_facts [OF c(1), of k v, folded arr' ks_def]
  show "holds_entry k v (leaf_array p')"
    unfolding holds_entry_def list_all_iff
    using f s gt by (intro exI [of _ c]) simp
  show "n = length (leaf_array p) + 1" "length (leaf_array p') = n" "max_size p' = max_size p"
    "page_id p' = page_id p" "parent_page_id p' = parent_page_id p" "page_type p' = page_type p"
    "next_page_id p' = next_page_id p"
    using i(2,3) c by (simp_all add: arr_def)
qed

lemma holds_entry_KeyIndex:
  assumes "holds_entry k v (leaf_array p)"
  shows "KeyIndex k p < length (leaf_array p) \<and> leaf_array p ! KeyIndex k p = (k, v)"
proof -
  from assms obtain c where c: "c < length (leaf_array p)" "leaf_array p ! c = (k, v)"
    "\<forall>x\<in>set (take c (map fst (leaf_array p))). x < k"
    "\<forall>x\<in>set (drop (Suc c) (map fst (leaf_array p))). k < x"
    by (auto simp: holds_entry_def list_all_iff)
  have "drop c (map fst (leaf_array p)) = k # drop (Suc c) (map fst (leaf_array p))"
    using c(1,2) by (simp add: Cons_nth_drop_Suc [symmetric])
  with c(4) have "\<forall>x\<in>set (drop c (map fst (leaf_array p))). k \<le> x" by auto
  with c have "KeyIndex k p = c" by (intro KeyIndex_result) auto
  with c show ?thesis by simp
qed

lemma holds_entry_Lookup:
  "holds_entry k v (leaf_array p) \<Longrightarrow> Leaf_Lookup k p = Some v"
  using holds_entry_KeyIndex [of k v p] by (simp add: Leaf_Lookup_def comparator_simps)

lemma holds_entry_Insert:
  "holds_entry k v (leaf_array p) \<Longrightarrow> length (leaf_array p) \<le> max_size p
   \<Longrightarrow> Leaf_Insert k v' p = Some (length (leaf_array p), p)"
  using holds_entry_KeyIndex [of k v p] by (simp add: Leaf_Insert_def comparator_simps)

lemma holds_entry_take:
  assumes "holds_entry k v arr" "m < length arr" "k < fst (arr ! m)"
  shows "holds_entry k v (take m arr)"
proof -
  from assms(1) obtain c where c: "c < length arr" "arr ! c = (k, v)"
    "\<forall>x\<in>set (take c (map fst arr)). x < k" "\<forall>x\<in>set (drop (Suc c) (map fst arr)). k < x"
    by (auto simp: holds_entry_def list_all_iff)
  have cm: "c < m"
  proof (rule ccontr)
    assume "\<not> c < m"
    with assms(3) c(2) have "m < c" by (cases "c = m") auto
    then have "fst (arr ! m) \<in> set (take c (map fst arr))"
      using c(1) by (auto simp: in_set_conv_nth intro!: exI [of _ m])
    with c(3) assms(3) show False by auto
  qed
  have "set (drop (Suc c) (take m (map fst arr))) \<subseteq> set (drop (Suc c) (map fst arr))"
    by (metis drop_take set_take_subset)
  with c cm assms(2) show ?thesis
    unfolding holds_entry_def
    by (intro exI [of _ c]) (auto simp: list_all_iff take_map [symmetric] min_def)
qed

lemma holds_entry_drop:
  assumes "holds_entry k v arr" "m < length arr" "fst (arr ! m) \<le> k"
  shows "holds_entry k v (drop m arr)"
proof -
  from assms(1) obtain c where c: "c < length arr" "arr ! c = (k, v)"
    "\<forall>x\<in>set (take c (map fst arr)). x < k" "\<forall>x\<in>set (drop (Suc c) (map fst arr)). k < x"
    by (auto simp: holds_entry_def list_all_iff)
  have cm: "m \<le> c"
  proof (rule ccontr)
    assume "\<not> m \<le> c"
    then have "fst (arr ! m) \<in> set (drop (Suc c) (map fst arr))"
      using assms(2) by (auto simp: in_set_conv_nth intro!: exI [of _ "m - Suc c"])
    with c(4) assms(3) show False by auto
  qed
  have "set (take (c - m) (drop m (map fst arr))) \<subseteq> set (take c (map fst arr))"
    by (metis drop_take set_drop_subset)
  with c cm assms(2) show ?thesis
    unfolding holds_entry_def
    by (intro exI [of _ "c - m"]) (auto simp: list_all_iff drop_map [symmetric])
qed

subsection \<open>Pages and paths\<close>

lemma page_content_eq:
  assumes "page_content p = page_content q"
  shows "internal_array p = internal_array q" "leaf_array p = leaf_array q"
    "page_type p = page_type q" "max_size p = max_size q" "page_id p = page_id q"
    "next_page_id p = next_page_id q"
proof -
  show "internal_array p = internal_array q"
    using arg_cong [OF assms, of internal_array] by (simp add: page_content_def)
  show "leaf_array p = leaf_array q"
    using arg_cong [OF assms, of leaf_array] by (simp add: page_content_def)
  show "page_type p = page_type q"
    using arg_cong [OF assms, of page_type] by (simp add: page_content_def)
  show "max_size p = max_size q"
    using arg_cong [OF assms, of max_size] by (simp add: page_content_def)
  show "page_id p = page_id q"
    using arg_cong [OF assms, of page_id] by (simp add: page_content_def)
  show "next_page_id p = next_page_id q"
    using arg_cong [OF assms, of next_page_id] by (simp add: page_content_def)
qed

lemma page_content_parent [simp]:
  "page_content (p\<lparr>parent_page_id := x\<rparr>) = page_content p"
  by (simp add: page_content_def)

lemma adopt_child_result:
  assumes "adopt_child c par T = Some T'"
  shows "T' = T\<lparr>pages := pages T'\<rparr>"
    "map_option page_content (pages T' q) = map_option page_content (pages T q)"
    "q \<noteq> c \<Longrightarrow> pages T' q = pages T q"
  using assms
  by (auto simp: adopt_child_def put_page_def split: if_splits Option.bind_splits)

lemma adopt_children_result:
  "adopt_children cs par T = Some T' \<Longrightarrow>
     T' = T\<lparr>pages := pages T'\<rparr>
   \<and> (\<forall>q. map_option page_content (pages T' q) = map_option page_content (pages T q))
   \<and> (\<forall>q. q \<notin> set cs \<longrightarrow> pages T' q = pages T q)"
proof (induction cs arbitrary: T)
  case Nil
  then show ?case by simp
next
  case (Cons c cs)
  from Cons.prems obtain T1 where 1: "adopt_child c par T = Some T1"
    and 2: "adopt_children cs par T1 = Some T'"
    by (auto split: Option.bind_splits)
  note a = adopt_child_result [OF 1] and b = Cons.IH [OF 2]
  have "T' = T\<lparr>pages := pages T'\<rparr>"
    using a(1) b by (metis (no_types, lifting) BPlusTree.surjective BPlusTree.update_convs(2))
  with a b show ?case by auto
qed


lemma ValueIndex_loop_distinct:
  "distinct (map snd arr) \<Longrightarrow> i < length arr
   \<Longrightarrow> ValueIndex_loop (snd (arr ! i)) arr n = n + int i"
proof (induction arr arbitrary: i n)
  case Nil
  then show ?case by simp
next
  case (Cons slot arr)
  show ?case
  proof (cases i)
    case 0
    then show ?thesis by simp
  next
    case (Suc j)
    with Cons.prems have "arr ! j \<in> set arr" by simp
    then have "snd (arr ! j) \<in> snd ` set arr" by (rule imageI)
    moreover from Cons.prems(1) have "snd slot \<notin> snd ` set arr" by simp
    ultimately have "snd slot \<noteq> snd (arr ! j)" by metis
    with Cons.IH [of j "n + 1"] Cons.prems Suc show ?thesis by simp
  qed
qed

lemma ValueIndex_distinct:
  "distinct (map snd (internal_array p)) \<Longrightarrow> i < length (internal_array p)
   \<Longrightarrow> snd (internal_array p ! i) = c \<Longrightarrow> ValueIndex c p = int i"
  using ValueIndex_loop_distinct [of "internal_array p" i 0] by (auto simp: ValueIndex_def)

lemma child_slot_less:
  "internal_array p \<noteq> [] \<Longrightarrow> child_slot k p < length (internal_array p)"
proof -
  assume "internal_array p \<noteq> []"
  then have "length (slot_keys p) < length (internal_array p)"
    by (cases "internal_array p") (simp_all add: slot_keys_def)
  with length_filter_le [of "\<lambda>x. x \<le> k" "slot_keys p"] show ?thesis
    unfolding child_slot_def by linarith
qed

lemma search_step:
  assumes "1 < length (internal_array p)" "sorted_wrt (<) (slot_keys p)"
  shows "Internal_Lookup k p = Some (snd (internal_array p ! child_slot k p))"
  using Internal_Lookup_slot [OF assms(1) sorted_splits_at [OF assms(2), of k]]
  by (simp add: child_slot_def)

lemma descend_leaf:
  "pages T c = Some p \<Longrightarrow> c \<noteq> INVALID_PAGE_ID \<Longrightarrow> IsLeafPage p
   \<Longrightarrow> descend (Suc f) k c T = Some c"
  by (simp add: FetchPage_tree_def)

lemma descend_step:
  "pages T a = Some p \<Longrightarrow> a \<noteq> INVALID_PAGE_ID \<Longrightarrow> \<not> IsLeafPage p
   \<Longrightarrow> Internal_Lookup k p = Some c \<Longrightarrow> descend (Suc f) k a T = descend f k c T"
  by (simp add: FetchPage_tree_def)

lemma search_path_descend:
  "search_path T k c anc \<Longrightarrow> \<forall>q\<in>set anc. pages T' q = pages T q
   \<Longrightarrow> root_page_id T' = root_page_id T
   \<Longrightarrow> descend (length anc + f) k (root_page_id T') T' = descend f k c T'"
proof (induction anc arbitrary: c f)
  case Nil
  then show ?case by simp
next
  case (Cons pid anc)
  from Cons.prems(1) obtain p where p: "pages T pid = Some p" "pid \<noteq> INVALID_PAGE_ID"
    "\<not> IsLeafPage p" "1 < length (internal_array p)" "sorted_wrt (<) (slot_keys p)"
    "snd (internal_array p ! child_slot k p) = c" "search_path T k pid anc"
    by (auto split: option.splits)
  from Cons.IH [OF p(7), of "Suc f"] Cons.prems(2,3)
  have "descend (length (pid # anc) + f) k (root_page_id T') T' = descend (Suc f) k pid T'"
    by simp
  also have "\<dots> = descend f k c T'"
    using p Cons.prems(2) search_step [OF p(4,5), of k]
    by (intro descend_step [of T' pid p]) simp_all
  finally show ?case .
qed

lemma search_path_frame:
  "search_path T k c anc \<Longrightarrow> \<forall>q\<in>set anc. pages T' q = pages T q
   \<Longrightarrow> root_page_id T' = root_page_id T \<Longrightarrow> search_path T' k c anc"
proof (induction anc arbitrary: c)
  case Nil
  then show ?case by simp
next
  case (Cons pid anc)
  from Cons.prems(1) have "search_path T k pid anc" by (auto split: option.splits)
  with Cons.IH [of pid] Cons.prems(2,3) have "search_path T' k pid anc" by simp
  with Cons.prems show ?case by (auto split: option.splits)
qed

lemma search_path_child:
  "search_path T k c anc \<Longrightarrow> c \<notin> set anc"
proof (cases anc)
  case Nil
  then show ?thesis by simp
next
  case (Cons pid rest)
  assume "search_path T k c anc"
  with Cons obtain p where p: "pages T pid = Some p" "1 < length (internal_array p)"
    "snd (internal_array p ! child_slot k p) = c"
    "list_all (\<lambda>child. child \<notin> set (pid # rest)) (map snd (internal_array p))"
    by (auto split: option.splits)
  have "child_slot k p < length (internal_array p)"
    using p(2) by (intro child_slot_less) auto
  then have "c \<in> set (map snd (internal_array p))"
    using p(3) by (auto simp: in_set_conv_nth intro!: exI [of _ "child_slot k p"])
  with p(4) Cons show ?thesis by (auto simp: list_all_iff)
qed

lemma search_path_root:
  "search_path T k c anc \<Longrightarrow> c \<noteq> INVALID_PAGE_ID \<Longrightarrow> root_page_id T \<noteq> INVALID_PAGE_ID"
proof (induction anc arbitrary: c)
  case Nil
  then show ?case by simp
next
  case (Cons pid anc)
  from Cons.prems(1) have "search_path T k pid anc" "pid \<noteq> INVALID_PAGE_ID"
    by (auto split: option.splits)
  with Cons.IH [of pid] show ?case by simp
qed

lemma Split_internal_result:
  assumes p: "pages T P = Some p"
    and over: "length (internal_array p) = max_size p + 1"
    and fresh: "free_page_ids T = P2 # rest" "P2 \<noteq> P"
    and kids: "P \<notin> set (map snd (drop (GetMinSize p) (internal_array p)))"
    and split: "Split_internal P T = Some (nid, T2)"
  shows "nid = P2"
    "pages T2 P = Some (p\<lparr>internal_array := take (GetMinSize p) (internal_array p)\<rparr>)"
    "\<exists>p2. pages T2 P2 = Some p2 \<and> page_id p2 = P2 \<and> page_type p2 = INTERNAL_PAGE
          \<and> internal_array p2 = drop (GetMinSize p) (internal_array p)"
    "\<forall>q. q \<noteq> P \<and> q \<noteq> P2 \<longrightarrow>
         map_option page_content (pages T2 q) = map_option page_content (pages T q)"
    "T2 = T\<lparr>pages := pages T2, free_page_ids := rest\<rparr>"
    "\<forall>q. q \<noteq> P \<and> q \<noteq> P2 \<and> q \<notin> set (map snd (drop (GetMinSize p) (internal_array p)))
         \<longrightarrow> pages T2 q = pages T q"
proof -
  let ?moved = "drop (GetMinSize p) (internal_array p)"
  let ?new = "Internal_Init P2 (parent_page_id p) (internal_max_size T)"
  let ?T1 = "put_page P2 (?new\<lparr>internal_array := ?moved\<rparr>)
               (put_page P2 ?new (T\<lparr>free_page_ids := rest\<rparr>))"
  from split p over fresh obtain Ta where nid: "nid = P2"
    and a: "adopt_children (map snd ?moved) P2 ?T1 = Some Ta"
    and T2: "\<exists>this2. pages Ta P = Some this2
               \<and> T2 = put_page P (this2\<lparr>internal_array :=
                                          take (GetMinSize p) (internal_array this2)\<rparr>) Ta"
    by (auto simp: Split_internal_def NewPage_def Internal_MoveHalfTo_def put_page_def
        Internal_Init_def Let_def split: Option.bind_splits if_splits)
  note r = adopt_children_result [OF a]
  from r kids have "pages Ta P = pages ?T1 P" by blast
  with p fresh(2) have this2: "pages Ta P = Some p" by (simp add: put_page_def)
  with T2 have T2': "T2 = put_page P (p\<lparr>internal_array := take (GetMinSize p) (internal_array p)\<rparr>) Ta"
    by simp
  show "nid = P2" by (rule nid)
  show "pages T2 P = Some (p\<lparr>internal_array := take (GetMinSize p) (internal_array p)\<rparr>)"
    by (simp add: T2' put_page_def)
  from r have c2: "map_option page_content (pages Ta P2) = map_option page_content (pages ?T1 P2)"
    by blast
  then obtain p2 where p2: "pages Ta P2 = Some p2"
    "page_content p2 = page_content (?new\<lparr>internal_array := ?moved\<rparr>)"
    by (auto simp: put_page_def)
  from page_content_eq [OF p2(2)] p2(1) fresh(2)
  show "\<exists>p2. pages T2 P2 = Some p2 \<and> page_id p2 = P2 \<and> page_type p2 = INTERNAL_PAGE
          \<and> internal_array p2 = ?moved"
    by (simp add: T2' put_page_def Internal_Init_def)
  show "\<forall>q. q \<noteq> P \<and> q \<noteq> P2 \<longrightarrow>
         map_option page_content (pages T2 q) = map_option page_content (pages T q)"
  proof (intro allI impI)
    fix q assume q: "q \<noteq> P \<and> q \<noteq> P2"
    from r have "map_option page_content (pages Ta q) = map_option page_content (pages ?T1 q)"
      by blast
    with q show "map_option page_content (pages T2 q) = map_option page_content (pages T q)"
      by (simp add: T2' put_page_def)
  qed
  show "\<forall>q. q \<noteq> P \<and> q \<noteq> P2 \<and> q \<notin> set (map snd ?moved) \<longrightarrow> pages T2 q = pages T q"
  proof (intro allI impI)
    fix q assume q: "q \<noteq> P \<and> q \<noteq> P2 \<and> q \<notin> set (map snd ?moved)"
    with r have "pages Ta q = pages ?T1 q" by blast
    with q show "pages T2 q = pages T q" by (simp add: T2' put_page_def)
  qed
  from r have eq: "Ta = ?T1\<lparr>pages := pages Ta\<rparr>" by blast
  show "T2 = T\<lparr>pages := pages T2, free_page_ids := rest\<rparr>"
    using arg_cong [OF eq, of "\<lambda>t. t\<lparr>pages := pages T2\<rparr>"]
    by (simp add: T2' put_page_def)
qed


lemma routed_insert:
  fixes arr :: "('k::linorder \<times> page_id_t) list"
  assumes "arr \<noteq> []" "splits_at k (map fst (tl arr)) i"
    and arr': "arr' = take (Suc i) arr @ [(key, new)] @ drop (Suc i) arr"
    and j: "j = (if key \<le> k then Suc i else i)"
  shows "splits_at k (map fst (tl arr')) j"
    "snd (arr' ! j) = (if k < key then snd (arr ! i) else new)"
    "j < length arr'" "length arr' = Suc (length arr)"
proof -
  from assms(1) obtain s rest where arr: "arr = s # rest" by (cases arr) auto
  have i: "i \<le> length rest" using assms(2) by (simp add: splits_at_def arr)
  have tl: "map fst (tl arr') = take i (map fst rest) @ [key] @ drop i (map fst rest)"
    by (simp add: arr' arr take_map drop_map)
  show "splits_at k (map fst (tl arr')) j"
    unfolding tl j using splits_at_insert [OF assms(2), of key] by (simp add: arr)
  show "snd (arr' ! j) = (if k < key then snd (arr ! i) else new)"
    using i by (auto simp: arr' j arr nth_append nth_Cons' min_def)
  show "j < length arr'" "length arr' = Suc (length arr)"
    using i by (auto simp: arr' j arr)
qed

lemma routed_left:
  fixes arr' :: "('k::linorder \<times> page_id_t) list"
  assumes "splits_at k (map fst (tl arr')) j" "2 \<le> half" "half < length arr'"
    "k < fst (arr' ! half)"
  shows "splits_at k (map fst (tl (take half arr'))) j" "j < half" "take half arr' ! j = arr' ! j"
proof -
  let ?ks = "map fst (tl arr')"
  have h: "half - 1 < length ?ks" "?ks ! (half - 1) = fst (arr' ! half)"
    using assms(2,3) by (simp_all add: nth_tl)
  note t = splits_at_take [OF assms(1) h(1)]
  have "map fst (tl (take half arr')) = take (half - 1) ?ks"
    by (simp add: tl_take take_map)
  with t assms(4) h(2) show "splits_at k (map fst (tl (take half arr'))) j" by simp
  from t(1) assms(4) h(2) assms(2) show "j < half" by simp
  then show "take half arr' ! j = arr' ! j" by simp
qed

lemma routed_right:
  fixes arr' :: "('k::linorder \<times> page_id_t) list"
  assumes "splits_at k (map fst (tl arr')) j" "2 \<le> half" "half < length arr'"
    "fst (arr' ! half) \<le> k" "j < length arr'"
  shows "splits_at k (map fst (tl (drop half arr'))) (j - half)" "half \<le> j"
    "drop half arr' ! (j - half) = arr' ! j"
proof -
  let ?ks = "map fst (tl arr')"
  have h: "half - 1 < length ?ks" "?ks ! (half - 1) = fst (arr' ! half)"
    using assms(2,3) by (simp_all add: nth_tl)
  note t = splits_at_drop [OF assms(1) h(1)]
  have "map fst (tl (drop half arr')) = drop (Suc (half - 1)) ?ks"
    using assms(2) by (simp add: drop_map drop_Suc tl_drop)
  with t assms(4) h(2) assms(2) show "splits_at k (map fst (tl (drop half arr'))) (j - half)"
    by simp
  from t(1) assms(4) h(2) assms(2) show "half \<le> j" by simp
  then show "drop half arr' ! (j - half) = arr' ! j" using assms(5) by simp
qed

lemma UpdateRootPageId_fields [simp]:
  "pages (UpdateRootPageId b t) = pages t"
  "root_page_id (UpdateRootPageId b t) = root_page_id t"
  "free_page_ids (UpdateRootPageId b t) = free_page_ids t"
  by (simp_all add: UpdateRootPageId_def split: option.splits)

lemma search_path_pages:
  "search_path T k c anc \<Longrightarrow> q \<in> set anc \<Longrightarrow> pages T q \<noteq> None"
proof (induction anc arbitrary: c)
  case Nil
  then show ?case by simp
next
  case (Cons pid anc)
  from Cons.prems(1) have "search_path T k pid anc" "pages T pid \<noteq> None"
    by (auto split: option.splits)
  with Cons.IH [of pid] Cons.prems(2) show ?case by auto
qed

lemma free_page_ids_okD:
  assumes "free_page_ids_ok T" "q \<in> set (free_page_ids T)"
  shows "q \<noteq> INVALID_PAGE_ID" "pages T q = None"
  using assms by (auto simp: free_page_ids_ok_def list_all_iff)

lemma InsertIntoParent_step:
  assumes old: "pages T old_id = Some old" and new: "pages T new_id = Some new"
    and par: "parent_page_id old \<noteq> INVALID_PAGE_ID"
      "pages T (parent_page_id old) = Some p"
    and idx: "ValueIndex (page_id old) p = int i"
    and p': "p' = p\<lparr>internal_array := take (Suc i) (internal_array p) @ [(key, page_id new)]
                                         @ drop (Suc i) (internal_array p)\<rparr>"
  shows "InsertIntoParent (Suc fuel) old_id key new_id T =
           (if max_size p < Suc (length (internal_array p)) then
              do { (next_id, T2) \<leftarrow> Split_internal (parent_page_id old)
                                      (put_page (parent_page_id old) p' T);
                   next_node \<leftarrow> pages T2 next_id;
                   up_key \<leftarrow> Internal_KeyAt 0 next_node;
                   InsertIntoParent fuel (parent_page_id old) up_key next_id T2 }
            else Some (put_page (parent_page_id old) p' T))"
  using assms
  by (simp add: FetchPage_tree_def InsertNodeAfter_result Let_def)


lemma InsertIntoParent_root_route:
  assumes call: "InsertIntoParent fuel old_id key new_id T = Some T'"
    and free: "free_page_ids_ok T"
    and old: "pages T old_id = Some old" "page_id old = old_id"
      "parent_page_id old = INVALID_PAGE_ID"
    and new: "pages T new_id = Some new" "page_id new = new_id" "new_id \<noteq> old_id"
  shows "\<forall>f. descend (Suc f) k (root_page_id T') T'
              = descend f k (if k < key then old_id else new_id) T'"
    "\<forall>q. q \<notin> set (free_page_ids T) \<longrightarrow>
         map_option page_content (pages T' q) = map_option page_content (pages T q)"
    "root_page_id T' \<noteq> INVALID_PAGE_ID"
proof -
  from call obtain n where fuel: "fuel = Suc n" by (cases fuel) auto
  from call old new obtain R frest where fr: "free_page_ids T = R # frest"
    by (cases "free_page_ids T") (auto simp: fuel NewPage_def)
  note R = free_page_ids_okD [OF free, of R, unfolded fr, simplified]
  from R old new have ne: "R \<noteq> old_id" "R \<noteq> new_id" by auto
  let ?rp = "(Internal_Init R INVALID_PAGE_ID (internal_max_size T))
               \<lparr>internal_array := [(blank_key T, old_id), (key, new_id)]\<rparr>"
  have T': "T' = put_page new_id (new\<lparr>parent_page_id := R\<rparr>)
                  (put_page old_id (old\<lparr>parent_page_id := R\<rparr>)
                     (UpdateRootPageId False
                        ((put_page R ?rp (T\<lparr>free_page_ids := frest\<rparr>))\<lparr>root_page_id := R\<rparr>)))"
    using InsertIntoParent_new_root [OF old(1) new(1) old(3) fr ne new(3) [symmetric], of n key]
      call old(2) new(2) by (simp add: fuel)
  have root: "root_page_id T' = R" by (simp add: T' put_page_def)
  have page: "pages T' R = Some ?rp" using ne by (simp add: T' put_page_def)
  have "splits_at k (slot_keys ?rp) (if key \<le> k then 1 else 0)"
    by (auto simp: slot_keys_def splits_at_def)
  from Internal_Lookup_slot [OF _ this]
  have look: "Internal_Lookup k ?rp = Some (if k < key then old_id else new_id)"
    by (auto simp: not_le)
  show "\<forall>f. descend (Suc f) k (root_page_id T') T'
              = descend f k (if k < key then old_id else new_id) T'"
    unfolding root using descend_step [OF page R(1) _ look]
    by (simp add: IsLeafPage_def Internal_Init_def)
  show "\<forall>q. q \<notin> set (free_page_ids T) \<longrightarrow>
         map_option page_content (pages T' q) = map_option page_content (pages T q)"
    using old(1) new(1) by (auto simp: T' put_page_def fr)
  show "root_page_id T' \<noteq> INVALID_PAGE_ID" using root R by simp
qed

subsection \<open>Inserting into the parent\<close>

lemma descend_via_content:
  assumes "map_option page_content (pages T' c) = Some (page_content pg)"
    and "c \<noteq> INVALID_PAGE_ID" "\<not> IsLeafPage pg" "1 < length (internal_array pg)"
    and "splits_at k (slot_keys pg) j"
  shows "descend (Suc f) k c T' = descend f k (snd (internal_array pg ! j)) T'"
proof -
  from assms(1) obtain pc where pc: "pages T' c = Some pc" "page_content pc = page_content pg"
    by auto
  note e = page_content_eq [OF pc(2)]
  have "Internal_Lookup k pc = Some (snd (internal_array pc ! j))"
    using assms(4,5) by (intro Internal_Lookup_slot) (simp_all add: e slot_keys_def)
  with descend_step [OF pc(1) assms(2), of k _ f] assms(3) show ?thesis
    by (simp add: e IsLeafPage_def)
qed

declare descend.simps(2) [simp del] InsertIntoParent.simps(2) [simp del]

lemma InsertIntoParent_route:
  "InsertIntoParent fuel old_id key new_id T = Some T' \<Longrightarrow>
   search_path T k old_id anc \<Longrightarrow> free_page_ids_ok T \<Longrightarrow>
   pages T old_id = Some old \<Longrightarrow> page_id old = old_id \<Longrightarrow>
   parent_page_id old = parent_of anc \<Longrightarrow>
   pages T new_id = Some new \<Longrightarrow> page_id new = new_id \<Longrightarrow>
   new_id \<notin> set anc \<Longrightarrow> new_id \<noteq> old_id \<Longrightarrow>
     (\<exists>d\<le>Suc (length anc). \<forall>f. descend (d + f) k (root_page_id T') T'
                                    = descend f k (if k < key then old_id else new_id) T')
   \<and> (\<forall>q. q \<notin> set anc \<and> q \<notin> set (free_page_ids T) \<longrightarrow>
         map_option page_content (pages T' q) = map_option page_content (pages T q))
   \<and> root_page_id T' \<noteq> INVALID_PAGE_ID"
proof (induction anc arbitrary: fuel old_id key new_id T old new)
  case Nil
  from Nil.prems(6) have "parent_page_id old = INVALID_PAGE_ID" by (simp add: parent_of_def)
  note r = InsertIntoParent_root_route [OF Nil.prems(1) Nil.prems(3) Nil.prems(4) Nil.prems(5)
      this Nil.prems(7) Nil.prems(8) Nil.prems(10)]
  from r(1) have "\<exists>d\<le>Suc 0. \<forall>f. descend (d + f) k (root_page_id T') T'
                                    = descend f k (if k < key then old_id else new_id) T'"
    by (intro exI [of _ "Suc 0"]) simp
  with r(2,3) show ?case by simp
next
  case (Cons P rest)
  let ?cur = "if k < key then old_id else new_id"
  from Cons.prems(2) obtain p where p: "pages T P = Some p" "P \<noteq> INVALID_PAGE_ID"
    "page_id p = P" "\<not> IsLeafPage p" "parent_page_id p = parent_of rest"
    "1 < length (internal_array p)" "length (internal_array p) \<le> max_size p"
    "3 \<le> max_size p" "sorted_wrt (<) (slot_keys p)" "distinct (map snd (internal_array p))"
    "snd (internal_array p ! child_slot k p) = old_id"
    "list_all (\<lambda>child. child \<notin> set (P # rest)) (map snd (internal_array p))"
    and up: "search_path T k P rest"
    by (auto split: option.splits)
  from Cons.prems(1) obtain n where fuel: "fuel = Suc n" by (cases fuel) auto
  define i where "i = child_slot k p"
  define arr' where "arr' = take (Suc i) (internal_array p) @ [(key, new_id)]
                             @ drop (Suc i) (internal_array p)"
  define p' where "p' = p\<lparr>internal_array := arr'\<rparr>"
  define j where "j = (if key \<le> k then Suc i else i)"
  define T1 where "T1 = put_page P p' T"
  have ne: "internal_array p \<noteq> []" using p(6) by auto
  have i: "i < length (internal_array p)" unfolding i_def by (rule child_slot_less [OF ne])
  have par: "parent_page_id old = P" using Cons.prems(6) by (simp add: parent_of_def)
  have idx: "ValueIndex (page_id old) p = int i"
    using ValueIndex_distinct [OF p(10) i] p(11) Cons.prems(5) by (simp add: i_def)
  have sp: "splits_at k (map fst (tl (internal_array p))) i"
    using sorted_splits_at [OF p(9), of k] by (simp add: i_def child_slot_def slot_keys_def)
  note ri = routed_insert [OF ne sp arr'_def j_def]
  have cur: "snd (arr' ! j) = ?cur" using ri(2) p(11) by (simp add: i_def)
  have arr: "internal_array p' = arr'" by (simp add: p'_def)
  have l1: "1 < length (internal_array p')" using ri(4) p(6) unfolding arr by linarith
  have s1: "splits_at k (slot_keys p') j" using ri(1) by (simp add: arr slot_keys_def)
  have Pr: "P \<notin> set rest" by (rule search_path_child [OF up])
  have rootT: "root_page_id T \<noteq> INVALID_PAGE_ID" by (rule search_path_root [OF up p(2)])
  note step = InsertIntoParent_step [OF Cons.prems(4) Cons.prems(7) p(2) [folded par]
      p(1) [folded par] idx, of p' key n, unfolded par Cons.prems(8), folded arr'_def,
      folded p'_def, folded T1_def]
  show ?case
  proof (cases "max_size p < Suc (length (internal_array p))")
    case False
    with step Cons.prems(1) have T': "T' = T1" by (simp add: fuel)
    have pg: "pages T1 P = Some p'" by (simp add: T1_def put_page_def)
    have look: "Internal_Lookup k p' = Some ?cur"
      by (rule Internal_Lookup_slot [OF l1 s1, unfolded arr cur])
    have "\<forall>q\<in>set rest. pages T1 q = pages T q"
      using Pr by (auto simp: T1_def put_page_def)
    then have "descend (length rest + Suc f) k (root_page_id T1) T1 = descend (Suc f) k P T1" for f
      by (intro search_path_descend [OF up]) (simp_all add: T1_def put_page_def)
    then have "\<forall>f. descend (Suc (length rest) + f) k (root_page_id T1) T1 = descend (Suc f) k P T1"
      by simp
    moreover have "\<forall>f. descend (Suc f) k P T1 = descend f k ?cur T1"
      using descend_step [OF pg p(2) _ look] p(4) by (simp add: p'_def IsLeafPage_def)
    ultimately have "\<forall>f. descend (Suc (length rest) + f) k (root_page_id T') T'
                          = descend f k ?cur T'"
      by (simp add: T')
    then have "\<exists>d\<le>Suc (length (P # rest)). \<forall>f. descend (d + f) k (root_page_id T') T'
                          = descend f k ?cur T'"
      by (intro exI [of _ "Suc (length rest)"]) simp
    moreover have "\<forall>q. q \<notin> set (P # rest) \<and> q \<notin> set (free_page_ids T) \<longrightarrow>
         map_option page_content (pages T' q) = map_option page_content (pages T q)"
      by (simp add: T' T1_def put_page_def)
    moreover have "root_page_id T' \<noteq> INVALID_PAGE_ID"
      using rootT by (simp add: T' T1_def put_page_def)
    ultimately show ?thesis by blast
  next
    case True
    with step Cons.prems(1) obtain next_id T2 next_node up_key where
      split: "Split_internal P T1 = Some (next_id, T2)"
      and nn: "pages T2 next_id = Some next_node"
      and uk: "Internal_KeyAt 0 next_node = Some up_key"
      and rec: "InsertIntoParent n P up_key next_id T2 = Some T'"
      by (auto simp: fuel split: Option.bind_splits)
    define half where "half = GetMinSize p'"
    have mx: "max_size p' = max_size p" by (simp add: p'_def)
    have lenp': "length (internal_array p') = max_size p' + 1"
      using True p(7) ri(4) by (simp add: arr mx)
    have half: "2 \<le> half" "half < length arr'" "2 \<le> length arr' - half"
      using p(8) lenp' by (simp_all add: half_def GetMinSize_def mx arr)
    have pg: "pages T1 P = Some p'" by (simp add: T1_def put_page_def)
    from split obtain P2 frest where fr: "free_page_ids T1 = P2 # frest"
      by (cases "free_page_ids T1") (auto simp: Split_internal_def NewPage_def)
    then have frT: "free_page_ids T = P2 # frest" by (simp add: T1_def put_page_def)
    note P2 = free_page_ids_okD [OF Cons.prems(3), of P2, unfolded frT, simplified]
    have fdist: "P2 \<notin> set frest" "distinct frest"
      using Cons.prems(3) by (simp_all add: free_page_ids_ok_def frT)
    have P2ne: "P2 \<noteq> P" using P2(2) p(1) by auto
    have P2rest: "P2 \<notin> set rest" using search_path_pages [OF up, of P2] P2(2) by auto
    have kids: "\<forall>c\<in>set (map snd arr'). c \<notin> set (P # rest)"
    proof
      fix c assume "c \<in> set (map snd arr')"
      then have "c \<in> set (map snd (internal_array p)) \<or> c = new_id"
        by (auto simp: arr'_def dest: in_set_takeD in_set_dropD)
      with p(12) Cons.prems(9) show "c \<notin> set (P # rest)"
        by (auto simp: list_all_iff)
    qed
    have moved: "set (map snd (drop half arr')) \<subseteq> set (map snd arr')"
      by (auto dest: in_set_dropD)
    have "P \<notin> set (map snd (drop half arr'))"
    proof
      assume "P \<in> set (map snd (drop half arr'))"
      with moved have "P \<in> set (map snd arr')" by (rule subsetD)
      with kids have "P \<notin> set (P # rest)" by (rule bspec)
      then show False by simp
    qed
    then have kidsP: "P \<notin> set (map snd (drop (GetMinSize p') (internal_array p')))"
      unfolding arr half_def [symmetric] .
    note sr = Split_internal_result [OF pg lenp' fr P2ne kidsP split, folded half_def,
        unfolded arr]
    from sr(3) nn sr(1) have next_node: "page_id next_node = P2"
      "page_type next_node = INTERNAL_PAGE" "internal_array next_node = drop half arr'"
      by auto
    from uk half(2) have up_key: "up_key = fst (arr' ! half)"
      by (simp add: Internal_KeyAt_def next_node split: if_splits)
    define pl where "pl = p'\<lparr>internal_array := take half arr'\<rparr>"
    have plP: "pages T2 P = Some pl" using sr(2) by (simp add: pl_def)
    have fields: "root_page_id T2 = root_page_id T" "free_page_ids T2 = frest"
      using arg_cong [OF sr(5), of root_page_id] arg_cong [OF sr(5), of free_page_ids]
      by (simp_all add: T1_def put_page_def)
    have same: "pages T2 q = pages T q" if "q \<in> set rest" for q
    proof -
      have "q \<notin> set (map snd (drop half arr'))"
      proof
        assume "q \<in> set (map snd (drop half arr'))"
        with moved have "q \<in> set (map snd arr')" by (rule subsetD)
        with kids have "q \<notin> set (P # rest)" by (rule bspec)
        with that show False by simp
      qed
      with sr(6) that Pr P2rest have "pages T2 q = pages T1 q" by auto
      with that Pr show ?thesis by (auto simp: T1_def put_page_def)
    qed
    have sp2: "search_path T2 k P rest"
      using same fields(1) by (intro search_path_frame [OF up]) simp_all
    have content: "map_option page_content (pages T2 q) = map_option page_content (pages T q)"
      if "q \<noteq> P" "q \<noteq> P2" for q
      using sr(4) that by (simp add: T1_def put_page_def)
    have fok2: "free_page_ids_ok T2"
      unfolding free_page_ids_ok_def fields list_all_iff
    proof (intro conjI ballI)
      show "distinct frest" by (rule fdist)
    next
      fix q assume q: "q \<in> set frest"
      then have qT: "q \<in> set (free_page_ids T)" by (simp add: frT)
      note f = free_page_ids_okD [OF Cons.prems(3) qT]
      show "q \<noteq> INVALID_PAGE_ID" by (rule f)
      from q fdist have "q \<noteq> P2" by auto
      moreover from f p(1) have "q \<noteq> P" by auto
      ultimately show "pages T2 q = None" using content [of q] f(2) by simp
    qed
    note IH = Cons.IH [OF rec [unfolded sr(1)] sp2 fok2 plP _ _ nn [unfolded sr(1)]
        next_node(1) P2rest P2ne, unfolded fields]
    have "page_id pl = P" "parent_page_id pl = parent_of rest"
      using p(3,5) by (simp_all add: pl_def p'_def)
    note IH = IH [OF this]
    let ?cur' = "if k < up_key then P else P2"
    have notfree: "?cur' \<notin> set rest \<and> ?cur' \<notin> set frest"
      using Pr P2rest fdist(1) p(1) free_page_ids_okD(2) [OF Cons.prems(3), of P]
      by (auto simp: frT)
    with IH have c': "map_option page_content (pages T' ?cur') = map_option page_content (pages T2 ?cur')"
      by blast
    have stepdown: "descend (Suc f) k ?cur' T' = descend f k ?cur T'" for f
    proof (cases "k < up_key")
      case lt: True
      note rl = routed_left [OF ri(1) half(1,2) lt [unfolded up_key]]
      have "descend (Suc f) k P T' = descend f k (snd (internal_array pl ! j)) T'"
        using c' lt plP p(2,4) half rl
        by (intro descend_via_content)
           (simp_all add: pl_def p'_def IsLeafPage_def slot_keys_def)
      with lt rl cur show ?thesis by (simp add: pl_def)
    next
      case ge: False
      then have "fst (arr' ! half) \<le> k" by (simp add: up_key)
      note rr = routed_right [OF ri(1) half(1,2) this ri(3)]
      have "descend (Suc f) k P2 T' = descend f k (snd (internal_array next_node ! (j - half))) T'"
        using c' ge nn sr(1) P2(1) half rr next_node
        by (intro descend_via_content)
           (simp_all add: IsLeafPage_def slot_keys_def)
      with ge rr cur show ?thesis by (simp add: next_node)
    qed
    from IH obtain d' where d': "d' \<le> Suc (length rest)"
      "\<forall>f. descend (d' + f) k (root_page_id T') T' = descend f k ?cur' T'"
      by blast
    have "\<forall>f. descend (Suc d' + f) k (root_page_id T') T' = descend f k ?cur T'"
    proof
      fix f
      from d'(2) have "descend (d' + Suc f) k (root_page_id T') T' = descend (Suc f) k ?cur' T'"
        by blast
      with stepdown [of f] show "descend (Suc d' + f) k (root_page_id T') T' = descend f k ?cur T'"
        by simp
    qed
    with d'(1) have B: "\<exists>d\<le>Suc (length (P # rest)). \<forall>f. descend (d + f) k (root_page_id T') T'
                          = descend f k ?cur T'"
      by (intro exI [of _ "Suc d'"]) simp
    have A: "\<forall>q. q \<notin> set (P # rest) \<and> q \<notin> set (free_page_ids T) \<longrightarrow>
         map_option page_content (pages T' q) = map_option page_content (pages T q)"
    proof (intro allI impI)
      fix q assume q: "q \<notin> set (P # rest) \<and> q \<notin> set (free_page_ids T)"
      then have "q \<noteq> P" "q \<noteq> P2" "q \<notin> set rest \<and> q \<notin> set frest" by (auto simp: frT)
      with IH content [of q]
      show "map_option page_content (pages T' q) = map_option page_content (pages T q)"
        by simp
    qed
    from A B IH show ?thesis by blast
  qed
qed

subsection \<open>Insert and GetValue\<close>

lemma descend_mono:
  "descend f k c T = Some x \<Longrightarrow> descend (f + g) k c T = Some x"
proof (induction f arbitrary: c)
  case 0
  then show ?case by simp
next
  case (Suc f)
  from Suc.prems obtain p where p: "FetchPage_tree c T = Some p"
    by (auto simp: descend.simps(2) split: Option.bind_splits)
  show ?case
  proof (cases "IsLeafPage p")
    case True
    with p Suc.prems show ?thesis by (simp add: descend.simps(2))
  next
    case False
    with p Suc.prems obtain c' where c': "Internal_Lookup k p = Some c'"
      "descend f k c' T = Some x"
      by (auto simp: descend.simps(2) split: Option.bind_splits)
    from Suc.IH [OF c'(2)] p False c'(1) show ?thesis by (simp add: descend.simps(2))
  qed
qed

lemma put_page_same: "pages T L = Some pg \<Longrightarrow> put_page L pg T = T"
  by (simp add: put_page_def fun_upd_idem)

lemma found_entry:
  assumes "root_page_id T \<noteq> INVALID_PAGE_ID"
    and "descend fuel k (root_page_id T) T = Some L" "pages T L = Some pg"
    and "holds_entry k v (leaf_array pg)" "length (leaf_array pg) \<le> max_size pg"
  shows "GetValue fuel k T = Some (Some v) \<and> Insert fuel k v' T = Some (False, T)"
  using assms holds_entry_Lookup [OF assms(4)] holds_entry_Insert [OF assms(4,5), of v']
  by (simp add: GetValue_def FindLeafPage_def IsEmpty_def Insert_def InsertIntoLeaf_def
      put_page_same)

lemma found_entry_content:
  assumes root: "root_page_id T \<noteq> INVALID_PAGE_ID"
    and route: "\<forall>f. descend (d + f) k (root_page_id T) T = descend f k L T"
    and page: "map_option page_content (pages T L) = Some (page_content pg)"
    and leaf: "L \<noteq> INVALID_PAGE_ID" "IsLeafPage pg"
    and entry: "holds_entry k v (leaf_array pg)" "length (leaf_array pg) \<le> max_size pg"
    and fuel: "d < fuel"
  shows "GetValue fuel k T = Some (Some v) \<and> Insert fuel k v' T = Some (False, T)"
proof -
  from page obtain pc where pc: "pages T L = Some pc" "page_content pc = page_content pg"
    by auto
  note e = page_content_eq [OF pc(2)]
  from fuel obtain f where f: "fuel = d + Suc f"
    by (metis less_imp_Suc_add add_Suc_right)
  have "IsLeafPage pc" using leaf(2) by (simp add: IsLeafPage_def e)
  from descend_leaf [OF pc(1) leaf(1) this] have "descend (Suc f) k L T = Some L" .
  with route [rule_format, of "Suc f"] have d: "descend fuel k (root_page_id T) T = Some L"
    by (simp only: f)
  show ?thesis
    using found_entry [OF root d pc(1), of v v'] entry by (simp add: e)
qed

lemma Insert_empty_tree:
  assumes ins: "Insert fuel k v tree = Some (b, tree')"
    and empty: "IsEmpty tree" and free: "free_page_ids_ok tree"
    and max: "1 \<le> leaf_max_size tree" and fuel: "1 \<le> fuel'"
  shows "GetValue fuel' k tree' = Some (Some v) \<and> Insert fuel' k v' tree' = Some (False, tree')"
proof -
  from ins empty have start: "StartNewTree k v tree = Some tree'"
    by (auto simp: Insert_def)
  then obtain R rest where fr: "free_page_ids tree = R # rest"
    by (cases "free_page_ids tree") (auto simp: StartNewTree_def NewPage_def)
  note R = free_page_ids_okD [OF free, of R, unfolded fr, simplified]
  let ?leaf = "(Leaf_Init R INVALID_PAGE_ID (leaf_max_size tree))\<lparr>leaf_array := [(k, v)]\<rparr>"
  have li: "Leaf_Insert k v (Leaf_Init R INVALID_PAGE_ID (leaf_max_size tree)) = Some (1, ?leaf)"
    by (simp add: Leaf_Insert_def Leaf_Init_def KeyIndex_def)
  from start have T': "tree' = UpdateRootPageId True
                          (put_page R ?leaf (tree\<lparr>free_page_ids := rest, root_page_id := R\<rparr>))"
    by (simp add: StartNewTree_def NewPage_def fr li)
  have root: "root_page_id tree' = R" by (simp add: T' put_page_def)
  have page: "pages tree' R = Some ?leaf" by (simp add: T' put_page_def)
  have holds: "holds_entry k v (leaf_array ?leaf)" by (simp add: holds_entry_def)
  from fuel obtain f where f: "fuel' = Suc f" by (cases fuel') auto
  have d: "descend fuel' k (root_page_id tree') tree' = Some R"
    unfolding root f using page R(1) by (rule descend_leaf) (simp add: IsLeafPage_def Leaf_Init_def)
  show ?thesis
    using found_entry [OF _ d page holds, of v'] root R(1) max by (simp add: Leaf_Init_def)
qed


lemma Insert_into_leaf:
  assumes ins: "InsertIntoLeaf fuel k v tree = Some (True, tree')"
    and nonempty: "\<not> IsEmpty tree" and free: "free_page_ids_ok tree"
    and leaf: "search_leaf tree L anc" and path: "search_path tree k L anc"
    and fuel: "length anc + 2 \<le> fuel'"
  shows "GetValue fuel' k tree' = Some (Some v) \<and> Insert fuel' k v' tree' = Some (False, tree')"
proof -
  from leaf obtain pL where pL: "pages tree L = Some pL" "L \<noteq> INVALID_PAGE_ID"
    "page_id pL = L" "IsLeafPage pL" "parent_page_id pL = parent_of anc"
    "max_size pL = leaf_max_size tree" "1 \<le> max_size pL"
    "sorted_wrt (<) (map fst (leaf_array pL))"
    by (auto simp: search_leaf_def split: option.splits)
  have Lanc: "L \<notin> set anc" by (rule search_path_child [OF path])
  have root: "root_page_id tree \<noteq> INVALID_PAGE_ID" by (rule search_path_root [OF path pL(2)])
  have down: "descend (length anc + Suc f) k (root_page_id tree) tree = Some L" for f
    using search_path_descend [OF path, of tree "Suc f"] descend_leaf [OF pL(1,2,4), of f k]
    by simp
  from ins obtain L' where L': "FindLeafPage fuel k tree = Some L'"
    by (auto simp: InsertIntoLeaf_def split: Option.bind_splits)
  then have "descend fuel k (root_page_id tree) tree = Some L'"
    using nonempty by (simp add: FindLeafPage_def)
  from descend_mono [OF this, of "length anc + 1"] down [of fuel] have "L' = L"
    by (simp add: ac_simps)
  with L' have find: "FindLeafPage fuel k tree = Some L" by simp
  from ins find pL(1) obtain n pL' where li: "Leaf_Insert k v pL = Some (n, pL')"
    and new: "n \<noteq> length (leaf_array pL)"
    by (auto simp: InsertIntoLeaf_def Let_def split: Option.bind_splits if_splits)
  note n = Leaf_Insert_new [OF li new pL(8)]
  define T1 where "T1 = put_page L pL' tree"
  have frame1: "\<forall>q\<in>set anc. pages T1 q = pages tree q"
    using Lanc by (auto simp: T1_def put_page_def)
  show ?thesis
  proof (cases "max_size pL' < n")
      case False
      with ins find pL(1) li have T': "tree' = T1"
        by (simp add: InsertIntoLeaf_def T1_def)
      have r: "root_page_id T1 = root_page_id tree" by (simp add: T1_def put_page_def)
      have pg: "pages T1 L = Some pL'" by (simp add: T1_def put_page_def)
      have leaf': "IsLeafPage pL'" using pL(4) n(7) by (simp add: IsLeafPage_def)
      have route: "\<forall>f. descend (length anc + f) k (root_page_id T1) T1 = descend f k L T1"
        using search_path_descend [OF path frame1 r] by blast
      from found_entry_content [OF _ route _ pL(2) leaf' n(1), of fuel' v'] False n(3) r root
        pg fuel
      show ?thesis by (simp add: T')
    next
      case True
      note lf = Leaf_Insert_fields [OF li]
      have over: "length (leaf_array pL') = max_size pL' + 1"
        using True n(2,3,4) lf(8) by simp
      have pg: "pages T1 L = Some pL'" by (simp add: T1_def put_page_def)
      from ins find pL(1) li True obtain N T2 new_node up where
        split: "Split_leaf L T1 = Some (N, T2)"
        and nn: "pages T2 N = Some new_node"
        and uk: "Leaf_KeyAt 0 new_node = Some up"
        and rec: "InsertIntoParent fuel L up N T2 = Some tree'"
        by (auto simp: InsertIntoLeaf_def T1_def split: Option.bind_splits)
      from split obtain N0 rest where fr: "free_page_ids T1 = N0 # rest"
        by (cases "free_page_ids T1") (auto simp: Split_leaf_def NewPage_def)
      then have frT: "free_page_ids tree = N0 # rest" by (simp add: T1_def put_page_def)
      note N0 = free_page_ids_okD [OF free, of N0, unfolded frT, simplified]
      have fdist: "N0 \<notin> set rest" "distinct rest"
        using free by (simp_all add: free_page_ids_ok_def frT)
      have N0L: "N0 \<noteq> L" using N0(2) pL(1) by auto
      define m where "m = max_size pL' + 1 - GetMinSize pL'"
      define left where "left = pL'\<lparr>leaf_array := take m (leaf_array pL'), next_page_id := N0\<rparr>"
      define right where "right = (Leaf_Init N0 (parent_page_id pL') (leaf_max_size T1))
                  \<lparr>leaf_array := drop m (leaf_array pL'), next_page_id := next_page_id pL'\<rparr>"
      from Split_leaf_result [OF pg over fr N0L] split
      have N: "N = N0"
        and T2: "T2 = put_page L left (put_page N0 right (T1\<lparr>free_page_ids := rest\<rparr>))"
        by (simp_all add: m_def left_def right_def)
      have mx: "max_size pL' = leaf_max_size tree" "1 \<le> max_size pL'"
        using n(4) pL(6,7) by simp_all
      have m: "1 \<le> m" "m \<le> max_size pL'" "m < length (leaf_array pL')"
        "length (leaf_array pL') - m \<le> max_size pL'"
        using mx(2) over by (simp_all add: m_def GetMinSize_def)
      have pgL: "pages T2 L = Some left" by (simp add: T2 put_page_def)
      have pgN: "pages T2 N0 = Some right" using N0L by (simp add: T2 put_page_def)
      from nn have "new_node = right" by (simp add: N pgN)
      with uk m(3) have up: "up = fst (leaf_array pL' ! m)"
        by (auto simp: Leaf_KeyAt_def right_def split: if_splits)
      have Nanc: "N0 \<notin> set anc" using search_path_pages [OF path, of N0] N0(2) by auto
      have fields: "root_page_id T2 = root_page_id tree" "free_page_ids T2 = rest"
        by (simp_all add: T2 T1_def put_page_def)
      have sp2: "search_path T2 k L anc"
        using Lanc Nanc by (intro search_path_frame [OF path]) (auto simp: T2 T1_def put_page_def)
      have fok2: "free_page_ids_ok T2"
        unfolding free_page_ids_ok_def fields list_all_iff
      proof (intro conjI ballI)
        show "distinct rest" by (rule fdist)
      next
        fix q assume q: "q \<in> set rest"
        then have qT: "q \<in> set (free_page_ids tree)" by (simp add: frT)
        note f = free_page_ids_okD [OF free qT]
        show "q \<noteq> INVALID_PAGE_ID" by (rule f)
        from q fdist have "q \<noteq> N0" by auto
        moreover from f pL(1) have "q \<noteq> L" by auto
        ultimately show "pages T2 q = None" using f(2) by (simp add: T2 T1_def put_page_def)
      qed
      have lid: "page_id left = L" "parent_page_id left = parent_of anc"
        using n(5,6) pL(3,5) by (simp_all add: left_def)
      have rid: "page_id right = N0" by (simp add: right_def Leaf_Init_def)
      note R = InsertIntoParent_route [OF rec [unfolded N] sp2 fok2 pgL lid pgN rid Nanc N0L,
          unfolded fields]
      let ?cur = "if k < up then L else N0"
      define pc where "pc = (if k < up then left else right)"
      have "?cur \<notin> set anc \<and> ?cur \<notin> set rest"
        using Lanc Nanc fdist(1) free_page_ids_okD(2) [OF free, of L] pL(1) by (auto simp: frT)
      with R have "map_option page_content (pages tree' ?cur) = map_option page_content (pages T2 ?cur)"
        by blast
      then have content: "map_option page_content (pages tree' ?cur) = Some (page_content pc)"
        using pgL pgN by (simp add: pc_def)
      have cur: "?cur \<noteq> INVALID_PAGE_ID" using pL(2) N0(1) by simp
      have leafpc: "IsLeafPage pc"
        using pL(4) n(7) by (simp add: pc_def left_def right_def IsLeafPage_def Leaf_Init_def)
      have holds: "holds_entry k v (leaf_array pc)"
        using holds_entry_take [OF n(1) m(3)] holds_entry_drop [OF n(1) m(3)]
        by (auto simp: pc_def left_def right_def up)
      have size: "length (leaf_array pc) \<le> max_size pc"
        using m mx by (simp add: pc_def left_def right_def Leaf_Init_def T1_def put_page_def)
      from R obtain d where d: "d \<le> Suc (length anc)"
        "\<forall>f. descend (d + f) k (root_page_id tree') tree' = descend f k ?cur tree'"
        by blast
      from d(1) fuel have "d < fuel'" by simp
      from found_entry_content [OF _ d(2) content cur leafpc holds size this, of v'] R
      show ?thesis by blast
  qed
qed

text \<open>
  Claim C5. Let the pages on the search path of \<open>k\<close> be in order, as
  \<^const>\<open>insert_ready\<close> says, and let \<^const>\<open>Insert\<close> of \<open>k\<close> and \<open>v\<close> return
  true.  Then in the tree it leaves, with fuel for one level more than the path,
  \<^const>\<open>GetValue\<close> of \<open>k\<close> returns true with the result \<open>v\<close>, and \<^const>\<open>Insert\<close>
  of \<open>k\<close> with any value \<open>v'\<close> returns false and leaves the tree as it is, so that
  \<^const>\<open>GetValue\<close> after it still returns \<open>v\<close>.  This holds whether the tree was
  empty, the leaf page had room, or the leaf page and any number of pages above it were
  split, up to a new root.
\<close>

theorem insert_then_get_value:
  assumes ins: "Insert fuel k v tree = Some (True, tree')"
    and ready: "insert_ready tree k path"
    and fuel: "length path + 1 \<le> fuel'"
  shows "GetValue fuel' k tree' = Some (Some v)
       \<and> Insert fuel' k v' tree' = Some (False, tree')
       \<and> do { (inserted, tree'') \<leftarrow> Insert fuel' k v' tree'; GetValue fuel' k tree'' }
           = Some (Some v)"
proof -
  have "GetValue fuel' k tree' = Some (Some v) \<and> Insert fuel' k v' tree' = Some (False, tree')"
  proof (cases "IsEmpty tree")
    case True
    with ready fuel Insert_empty_tree [OF ins True, of fuel' v'] show ?thesis
      by (simp add: insert_ready_def)
  next
    case False
    with ready obtain L anc where path: "path = L # anc" "search_leaf tree L anc"
      "search_path tree k L anc" "free_page_ids_ok tree"
      by (cases path) (auto simp: insert_ready_def)
    from ins False have "InsertIntoLeaf fuel k v tree = Some (True, tree')"
      by (simp add: Insert_def)
    from Insert_into_leaf [OF this False path(4,2,3), of fuel' v'] fuel path(1)
    show ?thesis by simp
  qed
  then show ?thesis by simp
qed

lemma sample_leaf_tree_ready: "insert_ready sample_leaf_tree 4 [1]"
  by (simp add: insert_ready_def free_page_ids_ok_def sample_leaf_tree_def IsEmpty_def
      INVALID_PAGE_ID_def search_leaf_def sample_leaf_def IsLeafPage_def parent_of_def)

lemma sample_leaf_tree_insert: "map_option fst (Insert (Suc 0) 4 40 sample_leaf_tree) = Some True"
  by code_simp

theorem insert_then_get_value_witness:
  "(case Insert (Suc 0) 4 40 sample_leaf_tree of
      None \<Rightarrow> False
    | Some (inserted, tree') \<Rightarrow>
        inserted \<and> GetValue 2 4 tree' = Some (Some 40)
      \<and> Insert 2 4 99 tree' = Some (False, tree'))"
proof -
  from sample_leaf_tree_insert obtain tree' where
    ins: "Insert (Suc 0) 4 40 sample_leaf_tree = Some (True, tree')"
    by (cases "Insert (Suc 0) 4 40 sample_leaf_tree") auto
  from insert_then_get_value [OF ins sample_leaf_tree_ready, of 2 99] ins show ?thesis
    by simp
qed


end
